theory Spec2Isabelle
  imports Complex_Main "HOL-Library.Sublist"
begin

section \<open>LILITH: critique score and approval\<close>

text \<open>
  \<^verbatim>\<open>CritiqueIssue\<close> of the satellite types: the severity is one of four string
  literals. The issues of the language model are parsed JSON cast to the type, so a
  severity may be any other string as well: \<open>other\<close>, for which the \<^verbatim>\<open>switch\<close> of
  \<^verbatim>\<open>calculateScore\<close> has no case. The issue type and the description are carried along
  unchanged.
\<close>

datatype severity = critical | major | minor | info | other string

record CritiqueIssue =
  issue_type :: string
  severity :: severity
  description :: string

datatype target_type = tt_code | tt_text | tt_plan | tt_output

record Critique =
  targetId :: string
  targetType :: target_type
  issues :: "CritiqueIssue list"
  score :: int
  approved :: bool

text \<open>
  \<^verbatim>\<open>calculateScore\<close>: \<^verbatim>\<open>let score = 100\<close>, the \<^verbatim>\<open>for\<close> loop over the issues with its
  \<^verbatim>\<open>switch\<close> on the severity, then \<^verbatim>\<open>Math.max(0, score)\<close>.
\<close>

fun penalty :: "severity \<Rightarrow> int" where
  "penalty critical = 25"
| "penalty major = 15"
| "penalty minor = 5"
| "penalty info = 1"
| "penalty (other s) = 0"

fun calculateScore_loop :: "int \<Rightarrow> CritiqueIssue list \<Rightarrow> int" where
  "calculateScore_loop sc [] = sc"
| "calculateScore_loop sc (i # rest) = calculateScore_loop (sc - penalty (severity i)) rest"

definition calculateScore :: "CritiqueIssue list \<Rightarrow> int" where
  "calculateScore is = max 0 (calculateScore_loop 100 is)"

text \<open>
  \<^verbatim>\<open>critique\<close>: the issue list is the static analysis (for code only), then the
  issues of the language model, then the fact check (for text and output only). The
  three analyses are results of external calls and enter as arguments. The id and the
  recommendation text of the critique do not take part in score or approval.
\<close>

definition critique ::
  "CritiqueIssue list \<Rightarrow> CritiqueIssue list \<Rightarrow> CritiqueIssue list \<Rightarrow>
   target_type \<Rightarrow> string \<Rightarrow> Critique" where
  "critique staticIssues llmIssues factCheckIssues ty tid =
     (let is = (if ty = tt_code then staticIssues else []) @ llmIssues @
               (if ty = tt_text \<or> ty = tt_output then factCheckIssues else []);
          sc = calculateScore is
      in \<lparr> targetId = tid, targetType = ty, issues = is, score = sc,
           approved = (sc \<ge> 70 \<and> \<not> list_ex (\<lambda>i. severity i = critical) is) \<rparr>)"

definition count_severity :: "severity \<Rightarrow> CritiqueIssue list \<Rightarrow> int" where
  "count_severity s is = int (length (filter (\<lambda>i. severity i = s) is))"

section \<open>ATLAS: tool execution with retry\<close>

text \<open>
  \<^verbatim>\<open>String.prototype.includes\<close> on a string pattern: the pattern occurs as a contiguous
  run of the string.
\<close>

definition str_includes :: "string \<Rightarrow> string \<Rightarrow> bool" where
  "str_includes s pat = sublist pat s"





datatype DenDenMushiState = sleep | call | signal



text \<open>
  The result of \<^verbatim>\<open>executeToolWithRetry\<close>. Beside the fields of the source's
  \<^verbatim>\<open>ToolExecutionResult\<close> (the duration, a clock reading, is left out) the run records
  what an observer of the call sees: the delays passed to \<^verbatim>\<open>setTimeout\<close> in order, the
  messages of the thrown attempt failures in order, and the final connection state.
\<close>

record 'c ToolExecutionResult =
  success :: bool
  toolOutput :: "'c option"
  error :: "string option"
  attempts :: int
  delays :: "int list"
  thrown :: "string list"
  connectionState :: DenDenMushiState

















section \<open>Punk Records: chunking\<close>

text \<open>
  Strings are lists of characters; a character stands for one UTF-16 code unit of the
  source's string, and only equality of characters and lengths of strings are used.

  \<^verbatim>\<open>String.prototype.split\<close> with a string separator: the separator's occurrences are
  found from left to right without overlap, and the pieces between them are returned
  (one piece, the whole string, when there is no occurrence). The empty separator
  splits into single characters.
\<close>

function js_split_aux :: "string \<Rightarrow> string \<Rightarrow> string \<Rightarrow> string list" where
  "js_split_aux sep acc [] = [acc]"
| "js_split_aux sep acc (c # cs) =
     (if sep \<noteq> [] \<and> prefix sep (c # cs)
      then acc # js_split_aux sep [] (drop (length sep) (c # cs))
      else js_split_aux sep (acc @ [c]) cs)"
  by pat_completeness auto
termination
  by (relation "measure (\<lambda>(sep, acc, rest). length rest)") auto

definition js_split :: "string \<Rightarrow> string \<Rightarrow> string list" where
  "js_split s sep = (if sep = [] then map (\<lambda>c. [c]) s else js_split_aux sep [] s)"

record ChunkConfig =
  chunkSize :: int
  chunkOverlap :: int
  separator :: "string option"

text \<open>The default of the destructuring \<^verbatim>\<open>separator = '\n\n'\<close>.\<close>

definition effective_separator :: "ChunkConfig \<Rightarrow> string" where
  "effective_separator config =
     (case separator config of None \<Rightarrow> [CHR 0x0A, CHR 0x0A] | Some s \<Rightarrow> s)"

text \<open>
  The inner loop of \<^verbatim>\<open>chunkText\<close> over the words of a segment longer than
  \<^verbatim>\<open>chunkSize\<close>. The state is the pair of \<^verbatim>\<open>chunks\<close> and \<^verbatim>\<open>currentChunk\<close>.
\<close>

fun chunk_words :: "int \<Rightarrow> string list \<times> string \<Rightarrow> string list \<Rightarrow> string list \<times> string" where
  "chunk_words sz (chunks, cur) [] = (chunks, cur)"
| "chunk_words sz (chunks, cur) (w # ws) =
     (if int (length (cur @ '' '' @ w)) \<le> sz
      then chunk_words sz (chunks, cur @ (if cur \<noteq> [] then '' '' else []) @ w) ws
      else chunk_words sz ((if cur \<noteq> [] then chunks @ [cur] else chunks), w) ws)"

text \<open>The outer loop over the segments between separators.\<close>

fun chunk_segments ::
  "int \<Rightarrow> string \<Rightarrow> string list \<times> string \<Rightarrow> string list \<Rightarrow> string list \<times> string" where
  "chunk_segments sz sep (chunks, cur) [] = (chunks, cur)"
| "chunk_segments sz sep (chunks, cur) (s # ss) =
     (if int (length (cur @ s)) \<le> sz
      then chunk_segments sz sep (chunks, cur @ (if cur \<noteq> [] then sep else []) @ s) ss
      else
        (let chunks1 = (if cur \<noteq> [] then chunks @ [cur] else chunks)
         in if int (length s) > sz
            then chunk_segments sz sep (chunk_words sz (chunks1, []) (js_split s '' '')) ss
            else chunk_segments sz sep (chunks1, s) ss))"

text \<open>
  \<^verbatim>\<open>prevChunk.slice(-chunkOverlap)\<close> for a positive overlap: the last
  \<^verbatim>\<open>chunkOverlap\<close> characters, the whole chunk when it is shorter.
\<close>

definition slice_last :: "int \<Rightarrow> string \<Rightarrow> string" where
  "slice_last k s = drop (length s - nat k) s"

fun add_overlap :: "int \<Rightarrow> string \<Rightarrow> string list \<Rightarrow> string list" where
  "add_overlap k prev [] = []"
| "add_overlap k prev (c # cs) = (slice_last k prev @ '' '' @ c) # add_overlap k c cs"

definition chunkText :: "string \<Rightarrow> ChunkConfig \<Rightarrow> string list" where
  "chunkText txt config =
     (let sep = effective_separator config;
          (chunks0, cur) = chunk_segments (chunkSize config) sep ([], []) (js_split txt sep);
          chunks = (if cur \<noteq> [] then chunks0 @ [cur] else chunks0)
      in if chunkOverlap config > 0 \<and> length chunks > 1
         then (case chunks of [] \<Rightarrow> [] | c # cs \<Rightarrow> c # add_overlap (chunkOverlap config) c cs)
         else chunks)"

text \<open>The inputs of the examples: a thousand times the letter a, and three short words.\<close>

definition a1000 :: string where
  "a1000 = replicate 1000 (CHR ''a'')"

definition config100 :: ChunkConfig where
  "config100 = \<lparr> chunkSize = 100, chunkOverlap = 0, separator = None \<rparr>"

definition three_words :: string where
  "three_words = ''aaaa bbbb cccc''"

definition config9 :: ChunkConfig where
  "config9 = \<lparr> chunkSize = 9, chunkOverlap = 0, separator = None \<rparr>"

section \<open>Punk Records: documents, the two indices and search\<close>

record DocumentMetadata =
  md_source :: string
  md_type :: string
  md_title :: "string option"

record PunkDocument =
  doc_id :: string
  content :: string
  metadata :: DocumentMetadata
  embedding :: "real list option"
  createdAt :: int
  updatedAt :: int

datatype match_type = semantic | keyword | hybrid

record SearchResult =
  document :: PunkDocument
  score :: real
  matchType :: match_type

text \<open>The argument of the \<^verbatim>\<open>Voy\<close> constructor: one entry per embedded document.\<close>

record voy_entry =
  voy_id :: string
  voy_title :: string
  voy_url :: string
  voy_embeddings :: "real list"

record voy_neighbor =
  nb_id :: string
  nb_distance :: real

text \<open>
  The state of an initialised \<^verbatim>\<open>PunkRecords\<close>: the \<^verbatim>\<open>documents\<close> object store of
  the database (keyed by id), the entries the current Voy index was built from, and the
  documents added to the FlexSearch index.
\<close>

record punk_store =
  documents :: "(string \<times> PunkDocument) list"
  voyIndex :: "voy_entry list"
  flexIndex :: "PunkDocument list"

fun db_put :: "(string \<times> 'v) list \<Rightarrow> string \<Rightarrow> 'v \<Rightarrow> (string \<times> 'v) list" where
  "db_put [] k v = [(k, v)]"
| "db_put ((k', v') # rest) k v = (if k' = k then (k, v) # rest else (k', v') # db_put rest k v)"

definition db_get :: "(string \<times> 'v) list \<Rightarrow> string \<Rightarrow> 'v option" where
  "db_get db k = map_of db k"

text \<open>
  What a call of \<^verbatim>\<open>addDocument\<close> takes from outside: the fresh uuid, the clock, the
  embedding model (\<open>None\<close> when \<^verbatim>\<open>generateEmbedding\<close> throws) and the outcome of the
  database write (\<open>Some e\<close> when \<^verbatim>\<open>db.put\<close> throws \<open>e\<close>).
\<close>

record add_env =
  uuid :: string
  now :: int
  embedding_of :: "string \<Rightarrow> real list option"
  put_error :: "string option"

text \<open>\<^verbatim>\<open>getAllEmbeddings\<close>: the source returns the empty array.\<close>

definition getAllEmbeddings :: "punk_store \<Rightarrow> voy_entry list" where
  "getAllEmbeddings st = []"

text \<open>\<^verbatim>\<open>a || b\<close> on strings: \<^verbatim>\<open>b\<close> when \<^verbatim>\<open>a\<close> is undefined or empty.\<close>

definition or_else :: "string option \<Rightarrow> string \<Rightarrow> string" where
  "or_else a b = (case a of None \<Rightarrow> b | Some s \<Rightarrow> if s = [] then b else s)"

definition entry_of :: "PunkDocument \<Rightarrow> DocumentMetadata \<Rightarrow> real list \<Rightarrow> voy_entry" where
  "entry_of doc md e =
     \<lparr> voy_id = doc_id doc, voy_title = or_else (md_title md) (doc_id doc),
       voy_url = or_else (Some (md_source md)) [], voy_embeddings = e \<rparr>"

text \<open>
  \<^verbatim>\<open>addDocument\<close>. A failing embedding is logged and leaves the field undefined; a
  failing database write leaves the call by its exception, before either index is
  touched.
\<close>

definition addDocument ::
  "add_env \<Rightarrow> punk_store \<Rightarrow> string \<Rightarrow> DocumentMetadata \<Rightarrow> bool \<Rightarrow>
   (string + PunkDocument) \<times> punk_store" where
  "addDocument env st c md generateEmbedding =
     (let doc0 = \<lparr> doc_id = uuid env, content = c, metadata = md, embedding = None,
                    createdAt = now env, updatedAt = now env \<rparr>;
          doc = (if generateEmbedding then doc0\<lparr> embedding := embedding_of env c \<rparr> else doc0)
      in case put_error env of
           Some e \<Rightarrow> (Inl e, st)
         | None \<Rightarrow>
             (let st1 = st\<lparr> documents := db_put (documents st) (doc_id doc) doc,
                            flexIndex := flexIndex st @ [doc] \<rparr>;
                  st2 = (case embedding doc of
                           None \<Rightarrow> st1
                         | Some e \<Rightarrow>
                             st1\<lparr> voyIndex := getAllEmbeddings st1 @ [entry_of doc md e] \<rparr>)
              in (Inr doc, st2)))"

text \<open>
  What a query takes from outside: the embedding of the query text, the nearest
  neighbour search of Voy over the entries of the index, and the FlexSearch query, which
  returns one list of stored documents per indexed field (\<open>None\<close>: the call throws).
\<close>

record search_env =
  embed_query :: "string \<Rightarrow> real list option"
  voy_search :: "voy_entry list \<Rightarrow> real list \<Rightarrow> nat \<Rightarrow> voy_neighbor list option"
  flex_search :: "PunkDocument list \<Rightarrow> string \<Rightarrow> nat \<Rightarrow> PunkDocument list list option"

text \<open>
  \<^verbatim>\<open>semanticSearch\<close>: every neighbour whose document is found in the database becomes
  a result with score \<^verbatim>\<open>1 - (neighbor.distance || 0)\<close>; any exception gives the empty
  list.
\<close>

fun semantic_results :: "(string \<times> PunkDocument) list \<Rightarrow> voy_neighbor list \<Rightarrow> SearchResult list" where
  "semantic_results db [] = []"
| "semantic_results db (n # ns) =
     (case db_get db (nb_id n) of
        None \<Rightarrow> semantic_results db ns
      | Some doc \<Rightarrow>
          \<lparr> document = doc, score = 1 - nb_distance n, matchType = semantic \<rparr>
            # semantic_results db ns)"

definition semanticSearch :: "search_env \<Rightarrow> punk_store \<Rightarrow> string \<Rightarrow> nat \<Rightarrow> SearchResult list" where
  "semanticSearch env st query limit =
     (case embed_query env query of
        None \<Rightarrow> []
      | Some q \<Rightarrow>
          (case voy_search env (voyIndex st) q limit of
             None \<Rightarrow> []
           | Some neighbors \<Rightarrow> semantic_results (documents st) neighbors))"




text \<open>
  \<^verbatim>\<open>combinedMap\<close> is a \<^verbatim>\<open>Map\<close> from document id to result; it keeps insertion order,
  and \<^verbatim>\<open>set\<close> on a present key replaces the value where it stands.
\<close>

fun map_set :: "(string \<times> 'v) list \<Rightarrow> string \<Rightarrow> 'v \<Rightarrow> (string \<times> 'v) list" where
  "map_set [] k v = [(k, v)]"
| "map_set ((k', v') # rest) k v =
     (if k' = k then (k, v) # rest else (k', v') # map_set rest k v)"













text \<open>
  A concrete store and environment for the examples: one document without embedding,
  a vector search that returns the first entries of its index at distance zero, and a
  keyword search that returns the indexed documents whose content is the query.
\<close>

definition doc_xk7 :: PunkDocument where
  "doc_xk7 = \<lparr> doc_id = ''d1'', content = ''XK7-error-code-9981'',
               metadata = \<lparr> md_source = ''log'', md_type = ''text'', md_title = None \<rparr>,
               embedding = None, createdAt = 0, updatedAt = 0 \<rparr>"


definition toy_env :: search_env where
  "toy_env = \<lparr> embed_query = (\<lambda>q. Some [0]),
               voy_search = (\<lambda>idx q k. Some (take k (map (\<lambda>e. \<lparr> nb_id = voy_id e, nb_distance = 0 \<rparr>) idx))),
               flex_search = (\<lambda>idx q k. Some [take k (filter (\<lambda>d. content d = q) idx)]) \<rparr>"







text \<open>
  The assumption on the external vector index: a search over the index of the store
  returns only ids of the entries the index was built from.
\<close>

definition voy_returns_indexed :: "search_env \<Rightarrow> punk_store \<Rightarrow> bool" where
  "voy_returns_indexed senv st \<longleftrightarrow>
     (\<forall>q k ns. voy_search senv (voyIndex st) q k = Some ns \<longrightarrow>
        set (map nb_id ns) \<subseteq> set (map voy_id (voyIndex st)))"

definition toy_add_env :: add_env where
  "toy_add_env = \<lparr> uuid = ''d2'', now = 5, embedding_of = (\<lambda>c. Some [1, 0]), put_error = None \<rparr>"

definition store_one :: punk_store where
  "store_one = \<lparr> documents = [(''d1'', doc_xk7)],
                 voyIndex = [\<lparr> voy_id = ''d1'', voy_title = ''d1'', voy_url = ''log'',
                               voy_embeddings = [0, 1] \<rparr>],
                 flexIndex = [doc_xk7] \<rparr>"

definition doc_second :: PunkDocument where
  "doc_second = \<lparr> doc_id = ''d2'', content = ''second'',
                  metadata = \<lparr> md_source = ''note'', md_type = ''text'', md_title = None \<rparr>,
                  embedding = Some [1, 0], createdAt = 5, updatedAt = 5 \<rparr>"

definition store_two :: punk_store where
  "store_two = \<lparr> documents = [(''d1'', doc_xk7), (''d2'', doc_second)],
                 voyIndex = [\<lparr> voy_id = ''d2'', voy_title = ''d2'', voy_url = ''note'',
                               voy_embeddings = [1, 0] \<rparr>],
                 flexIndex = [doc_xk7, doc_second] \<rparr>"

section \<open>YORK: context eviction\<close>

record ConversationTurn =
  turn_id :: string
  turn_role :: string
  turn_content :: string
  tokenCount :: int

record ContextSlice =
  summary :: string
  originalTokenCount :: int
  compressedTokenCount :: int
  slice_embedding :: "real list"
  messages :: "(string \<times> string) list"

datatype eviction_priority = p_low | p_medium | p_high | p_critical

record EvictionDecision =
  shouldEvict :: bool
  tokensToFree :: int
  messagesToSummarize :: nat
  priority :: eviction_priority

text \<open>
  The fields of \<^verbatim>\<open>York\<close> that eviction reads and writes: the live history, the
  slices kept in memory, the running token counter and the ceiling of
  \<^verbatim>\<open>currentMetrics\<close>; and the \<^verbatim>\<open>context_slices\<close> store of Punk Records, where
  \<^verbatim>\<open>storeContextSlice\<close> puts every slice.
\<close>

record york_state =
  conversationHistory :: "ConversationTurn list"
  contextSlices :: "ContextSlice list"
  contextTokens :: int
  maxContextTokens :: int
  storedSlices :: "ContextSlice list"

definition MAX_CONTEXT_TOKENS :: int where
  "MAX_CONTEXT_TOKENS = 4096"

definition EVICTION_THRESHOLD :: real where
  "EVICTION_THRESHOLD = 8 / 10"

definition TARGET_AFTER_EVICTION :: real where
  "TARGET_AFTER_EVICTION = 5 / 10"

definition york_init :: york_state where
  "york_init = \<lparr> conversationHistory = [], contextSlices = [], contextTokens = 0,
                 maxContextTokens = MAX_CONTEXT_TOKENS, storedSlices = [] \<rparr>"

text \<open>
  The counting loop of \<^verbatim>\<open>evaluateEviction\<close>: oldest turns first, until the running
  sum reaches \<^verbatim>\<open>tokensToFree\<close> or the history ends.
\<close>

fun count_messages :: "int \<Rightarrow> int \<Rightarrow> nat \<Rightarrow> ConversationTurn list \<Rightarrow> nat" where
  "count_messages toFree tc mc [] = mc"
| "count_messages toFree tc mc (t # ts) =
     (if tc + tokenCount t \<ge> toFree then mc + 1
      else count_messages toFree (tc + tokenCount t) (mc + 1) ts)"

definition evaluateEviction :: "york_state \<Rightarrow> EvictionDecision" where
  "evaluateEviction st =
     (let usage = real_of_int (contextTokens st) / real_of_int (maxContextTokens st)
      in if usage < EVICTION_THRESHOLD
         then \<lparr> shouldEvict = False, tokensToFree = 0, messagesToSummarize = 0, priority = p_low \<rparr>
         else
           (let toFree = \<lfloor>real_of_int (contextTokens st)
                           - real_of_int (maxContextTokens st) * TARGET_AFTER_EVICTION\<rfloor>
            in \<lparr> shouldEvict = True, tokensToFree = toFree,
                 messagesToSummarize = count_messages toFree 0 0 (conversationHistory st),
                 priority = (if usage \<ge> 95 / 100 then p_critical
                             else if usage \<ge> 9 / 10 then p_high else p_medium) \<rparr>))"

text \<open>\<^verbatim>\<open>estimateTokens\<close>: \<^verbatim>\<open>Math.ceil(text.length / 4)\<close>.\<close>

definition estimateTokens :: "string \<Rightarrow> int" where
  "estimateTokens s = (int (length s) + 3) div 4"

text \<open>
  What \<^verbatim>\<open>performContextEviction\<close> takes from outside: the summary of the language
  model, the embedding of the summary, and the outcome of the database write; each may
  throw (\<open>Inl\<close>, \<open>Some\<close>).
\<close>

record evict_env =
  generateSummary :: "ConversationTurn list \<Rightarrow> string + string"
  generateEmbedding :: "string \<Rightarrow> string + real list"
  store_error :: "string option"

text \<open>
  The three results of \<^verbatim>\<open>performContextEviction\<close>: the message
  \<^verbatim>\<open>No eviction needed - context usage is within limits.\<close>, the message
  \<^verbatim>\<open>No messages to evict.\<close>, and the report \<^verbatim>\<open>Brain-Brain Cut complete: ...\<close> with
  the number of evicted messages, their token sum and the token estimate of the summary.
\<close>

datatype eviction_outcome =
  NoEvictionNeeded
| NoMessagesToEvict
| CutComplete nat int int

text \<open>
  \<^verbatim>\<open>performContextEviction\<close>. Every write to the state comes after the last call that
  can throw, so a thrown error leaves the state as it was.
\<close>

definition performContextEviction ::
  "evict_env \<Rightarrow> york_state \<Rightarrow> (string + eviction_outcome) \<times> york_state" where
  "performContextEviction env st =
     (let decision = evaluateEviction st
      in if \<not> shouldEvict decision then (Inr NoEvictionNeeded, st)
         else
           (let messagesToEvict = take (messagesToSummarize decision) (conversationHistory st)
            in if messagesToEvict = [] then (Inr NoMessagesToEvict, st)
               else
                 (case generateSummary env messagesToEvict of
                    Inl e \<Rightarrow> (Inl e, st)
                  | Inr sm \<Rightarrow>
                      (case generateEmbedding env sm of
                         Inl e \<Rightarrow> (Inl e, st)
                       | Inr emb \<Rightarrow>
                           (let original = sum_list (map tokenCount messagesToEvict);
                                compressed = estimateTokens sm;
                                slice = \<lparr> summary = sm, originalTokenCount = original,
                                          compressedTokenCount = compressed,
                                          slice_embedding = emb,
                                          messages = map (\<lambda>m. (turn_role m, turn_content m))
                                                       messagesToEvict \<rparr>
                            in case store_error env of
                                 Some e \<Rightarrow> (Inl e, st)
                               | None \<Rightarrow>
                                   (Inr (CutComplete (messagesToSummarize decision) original compressed),
                                    st\<lparr> storedSlices := storedSlices st @ [slice],
                                        contextSlices := contextSlices st @ [slice],
                                        conversationHistory :=
                                          drop (messagesToSummarize decision) (conversationHistory st),
                                        contextTokens := contextTokens st - original \<rparr>))))))"

text \<open>
  \<^verbatim>\<open>addConversationTurn\<close>: the turn is appended and counted; the flag tells whether
  the call starts an eviction, which then runs on its own as a call of
  \<^verbatim>\<open>performContextEviction\<close>.
\<close>

definition addConversationTurn :: "york_state \<Rightarrow> ConversationTurn \<Rightarrow> york_state \<times> bool" where
  "addConversationTurn st turn =
     (let st1 = st\<lparr> conversationHistory := conversationHistory st @ [turn],
                    contextTokens := contextTokens st + tokenCount turn \<rparr>
      in (st1, shouldEvict (evaluateEviction st1)))"

definition clearContext :: "york_state \<Rightarrow> york_state" where
  "clearContext st = st\<lparr> conversationHistory := [], contextSlices := [], contextTokens := 0 \<rparr>"

text \<open>
  The invariant of the counter: it is the token sum of the live history, under the
  ceiling the constructor sets. It holds initially and after every call that has run to
  its end before the next one starts.
\<close>

definition york_inv :: "york_state \<Rightarrow> bool" where
  "york_inv st \<longleftrightarrow>
     maxContextTokens st = MAX_CONTEXT_TOKENS
   \<and> contextTokens st = sum_list (map tokenCount (conversationHistory st))"

definition two_turns :: york_state where
  "two_turns =
     \<lparr> conversationHistory =
         [\<lparr> turn_id = ''t1'', turn_role = ''user'', turn_content = ''question'', tokenCount = 2000 \<rparr>,
          \<lparr> turn_id = ''t2'', turn_role = ''assistant'', turn_content = ''answer'', tokenCount = 2000 \<rparr>],
       contextSlices = [], contextTokens = 4000, maxContextTokens = 4096, storedSlices = [] \<rparr>"

definition toy_evict_env :: evict_env where
  "toy_evict_env = \<lparr> generateSummary = (\<lambda>ts. Inr ''summary''),
                     generateEmbedding = (\<lambda>s. Inr [0]), store_error = None \<rparr>"

definition one_turn_left :: york_state where
  "one_turn_left =
     \<lparr> conversationHistory =
         [\<lparr> turn_id = ''t2'', turn_role = ''assistant'', turn_content = ''answer'', tokenCount = 2000 \<rparr>],
       contextSlices =
         [\<lparr> summary = ''summary'', originalTokenCount = 2000, compressedTokenCount = 2,
            slice_embedding = [0], messages = [(''user'', ''question'')] \<rparr>],
       contextTokens = 2000, maxContextTokens = 4096,
       storedSlices =
         [\<lparr> summary = ''summary'', originalTokenCount = 2000, compressedTokenCount = 2,
            slice_embedding = [0], messages = [(''user'', ''question'')] \<rparr>] \<rparr>"

section \<open>SHAKA: the task graph\<close>

datatype node_status = Pending | Ready | Running | Completed | Failed

record SatelliteResult =
  res_taskId :: string
  res_satelliteId :: string
  res_success :: bool
  res_output :: string
  res_error :: "string option"

record DAGNode =
  node_id :: string
  taskId :: string
  satelliteId :: string
  status :: node_status
  dependencies :: "string list"
  dependents :: "string list"
  result :: "SatelliteResult option"

text \<open>
  \<^verbatim>\<open>TaskDAG.nodes\<close> is a \<^verbatim>\<open>Map\<close> from node id to node: a list of pairs in insertion
  order, read with \<open>map_of\<close> and written with \<open>map_set\<close>.
\<close>

record TaskDAG =
  nodes :: "(string \<times> DAGNode) list"
  rootNodes :: "string list"
  leafNodes :: "string list"

record SatelliteTask =
  task_id :: string
  task_satelliteId :: string
  task_description :: string
  task_input :: string
  task_dependencies :: "string list"
  task_priority :: int

record planning_task =
  pt_description :: string
  pt_satellite :: string
  pt_dependencies :: "string list"
  pt_priority :: int

record ExecutionPlan =
  plan_id :: string
  userIntent :: string
  analysis :: string
  tasks :: "SatelliteTask list"
  dag :: TaskDAG

text \<open>A node object is mutated in place: the entry under the key is rewritten.\<close>

definition update_node :: "TaskDAG \<Rightarrow> string \<Rightarrow> (DAGNode \<Rightarrow> DAGNode) \<Rightarrow> TaskDAG" where
  "update_node g k f =
     g\<lparr> nodes := map (\<lambda>p. if fst p = k then (fst p, f (snd p)) else p) (nodes g) \<rparr>"

text \<open>
  \<^verbatim>\<open>node.dependencies.every(depId => dag.nodes.get(depId)?.status === 'completed')\<close>:
  a dependency that is not in the map does not count as completed.
\<close>

definition dep_completed :: "TaskDAG \<Rightarrow> string \<Rightarrow> bool" where
  "dep_completed g depId =
     (case map_of (nodes g) depId of None \<Rightarrow> False | Some dn \<Rightarrow> status dn = Completed)"

definition allDepsComplete :: "TaskDAG \<Rightarrow> DAGNode \<Rightarrow> bool" where
  "allDepsComplete g node = list_all (dep_completed g) (dependencies node)"

text \<open>The decimal digits of an index, for the node id \<^verbatim>\<open>node_${index}\<close>.\<close>

fun showNat :: "nat \<Rightarrow> string" where
  "showNat n = (if n < 10 then [''0123456789'' ! n]
                else showNat (n div 10) @ [''0123456789'' ! (n mod 10)])"

definition node_name :: "nat \<Rightarrow> string" where
  "node_name i = ''node_'' @ showNat i"

text \<open>
  \<^verbatim>\<open>buildDAG\<close>, first loop: one pending node per task, and the map from description
  to node id (a later task with the same description replaces the entry).
\<close>

fun create_nodes ::
  "nat \<Rightarrow> planning_task list \<Rightarrow> (string \<times> DAGNode) list \<times> (string \<times> string) list \<Rightarrow>
   (string \<times> DAGNode) list \<times> (string \<times> string) list" where
  "create_nodes i [] (ns, descToId) = (ns, descToId)"
| "create_nodes i (t # ts) (ns, descToId) =
     create_nodes (i + 1) ts
       (map_set ns (node_name i)
          \<lparr> node_id = node_name i, taskId = [], satelliteId = pt_satellite t,
            status = Pending, dependencies = [], dependents = [], result = None \<rparr>,
        map_set descToId (pt_description t) (node_name i))"

text \<open>
  Second loop: every dependency description that names a task adds an edge, on both
  of its ends; a description that names no task is dropped.
\<close>

fun link_deps :: "(string \<times> string) list \<Rightarrow> string \<Rightarrow> string list \<Rightarrow> TaskDAG \<Rightarrow> TaskDAG" where
  "link_deps descToId nodeId [] g = g"
| "link_deps descToId nodeId (depDesc # rest) g =
     link_deps descToId nodeId rest
       (case map_of descToId depDesc of
          None \<Rightarrow> g
        | Some depNodeId \<Rightarrow>
            if depNodeId = [] then g
            else update_node
                   (update_node g nodeId (\<lambda>n. n\<lparr> dependencies := dependencies n @ [depNodeId] \<rparr>))
                   depNodeId (\<lambda>n. n\<lparr> dependents := dependents n @ [nodeId] \<rparr>))"

fun link_tasks :: "(string \<times> string) list \<Rightarrow> nat \<Rightarrow> planning_task list \<Rightarrow> TaskDAG \<Rightarrow> TaskDAG" where
  "link_tasks descToId i [] g = g"
| "link_tasks descToId i (t # ts) g =
     link_tasks descToId (i + 1) ts (link_deps descToId (node_name i) (pt_dependencies t) g)"

text \<open>Third loop: roots become ready; roots and leaves are listed.\<close>

definition mark_roots :: "TaskDAG \<Rightarrow> TaskDAG" where
  "mark_roots g =
     \<lparr> nodes = map (\<lambda>p. if dependencies (snd p) = [] then (fst p, (snd p)\<lparr> status := Ready \<rparr>) else p)
                 (nodes g),
       rootNodes = map fst (filter (\<lambda>p. dependencies (snd p) = []) (nodes g)),
       leafNodes = map fst (filter (\<lambda>p. dependents (snd p) = []) (nodes g)) \<rparr>"

definition buildDAG :: "planning_task list \<Rightarrow> TaskDAG" where
  "buildDAG ts =
     (let (ns, descToId) = create_nodes 0 ts ([], [])
      in mark_roots (link_tasks descToId 0 ts \<lparr> nodes = ns, rootNodes = [], leafNodes = [] \<rparr>))"

text \<open>
  \<^verbatim>\<open>getReadyTasks\<close>: the loop over the map; a pending node whose dependencies are all
  completed is promoted as a side effect.
\<close>

fun getReadyTasks_loop :: "string list \<Rightarrow> TaskDAG \<Rightarrow> string list \<Rightarrow> string list \<times> TaskDAG" where
  "getReadyTasks_loop [] g ready = (ready, g)"
| "getReadyTasks_loop (k # ks) g ready =
     (case map_of (nodes g) k of
        None \<Rightarrow> getReadyTasks_loop ks g ready
      | Some node \<Rightarrow>
          if status node = Ready then getReadyTasks_loop ks g (ready @ [k])
          else if status node = Pending \<and> allDepsComplete g node
          then getReadyTasks_loop ks (update_node g k (\<lambda>n. n\<lparr> status := Ready \<rparr>)) (ready @ [k])
          else getReadyTasks_loop ks g ready)"

definition getReadyTasks :: "TaskDAG \<Rightarrow> string list \<times> TaskDAG" where
  "getReadyTasks g = getReadyTasks_loop (map fst (nodes g)) g []"

text \<open>\<^verbatim>\<open>markTaskComplete\<close>, with its loop over the dependents of a successful node.\<close>

fun promote_dependents :: "string list \<Rightarrow> TaskDAG \<Rightarrow> TaskDAG" where
  "promote_dependents [] g = g"
| "promote_dependents (depId # rest) g =
     promote_dependents rest
       (case map_of (nodes g) depId of
          None \<Rightarrow> g
        | Some depNode \<Rightarrow>
            if status depNode = Pending \<and> allDepsComplete g depNode
            then update_node g depId (\<lambda>n. n\<lparr> status := Ready \<rparr>)
            else g)"

definition markTaskComplete :: "TaskDAG \<Rightarrow> string \<Rightarrow> SatelliteResult \<Rightarrow> TaskDAG" where
  "markTaskComplete g nodeId r =
     (case map_of (nodes g) nodeId of
        None \<Rightarrow> g
      | Some node \<Rightarrow>
          (let g1 = update_node g nodeId
                      (\<lambda>n. n\<lparr> status := (if res_success r then Completed else Failed),
                              result := Some r \<rparr>)
           in if res_success r then promote_dependents (dependents node) g1 else g1))"

definition isDAGComplete :: "TaskDAG \<Rightarrow> bool" where
  "isDAGComplete g = list_all (\<lambda>p. status (snd p) = Completed \<or> status (snd p) = Failed) (nodes g)"

section \<open>The mesh: executing a plan\<close>

text \<open>
  \<^verbatim>\<open>plan.tasks.find(t => t.id === node.taskId || t.description === nodeId)\<close>.
\<close>

definition find_task :: "SatelliteTask list \<Rightarrow> DAGNode \<Rightarrow> string \<Rightarrow> SatelliteTask option" where
  "find_task ts node nodeId =
     find (\<lambda>t. task_id t = taskId node \<or> task_description t = nodeId) ts"

text \<open>
  One batch of \<^verbatim>\<open>executePlan\<close>. The callbacks of \<^verbatim>\<open>readyNodes.map\<close> run one after
  the other up to their first \<^verbatim>\<open>await\<close>: a node without task returns \<^verbatim>\<open>null\<close> and is
  left as it is; a node with a task is set to running, which the dispatch log records
  together with the graph at that moment. A node id that is not in the map makes the
  callback throw.
\<close>

record batch_start =
  bs_dag :: TaskDAG
  bs_started :: "(string \<times> SatelliteTask) list"
  bs_log :: "(string \<times> TaskDAG) list"
  bs_error :: "string option"

fun dispatch_batch :: "SatelliteTask list \<Rightarrow> string list \<Rightarrow> batch_start \<Rightarrow> batch_start" where
  "dispatch_batch ts [] b = b"
| "dispatch_batch ts (nodeId # rest) b =
     dispatch_batch ts rest
       (case map_of (nodes (bs_dag b)) nodeId of
          None \<Rightarrow>
            b\<lparr> bs_error := (case bs_error b of None \<Rightarrow> Some ''TypeError'' | Some e \<Rightarrow> Some e) \<rparr>
        | Some node \<Rightarrow>
            (case find_task ts node nodeId of
               None \<Rightarrow> b
             | Some task \<Rightarrow>
                 b\<lparr> bs_dag := update_node (bs_dag b) nodeId (\<lambda>n. n\<lparr> status := Running \<rparr>),
                    bs_started := bs_started b @ [(nodeId, task)],
                    bs_log := bs_log b @ [(nodeId, bs_dag b)] \<rparr>))"

text \<open>
  The second half of the batch: every started task is executed by its satellite and
  the node is marked with the result. The satellites are external: \<open>exec\<close> takes the
  state of the outside world and a task and returns the result, or the error that
  \<^verbatim>\<open>getSatellite\<close> or the satellite throws, which \<^verbatim>\<open>Promise.all\<close> passes on. The results
  are applied in the order of the batch.
\<close>

fun complete_batch ::
  "('w \<Rightarrow> SatelliteTask \<Rightarrow> (string + SatelliteResult) \<times> 'w) \<Rightarrow> 'w \<Rightarrow> TaskDAG \<Rightarrow>
   (string \<times> SatelliteTask) list \<Rightarrow> SatelliteResult list \<Rightarrow>
   (string + SatelliteResult list) \<times> TaskDAG \<times> 'w" where
  "complete_batch exec w g [] acc = (Inr acc, g, w)"
| "complete_batch exec w g ((nodeId, task) # rest) acc =
     (case exec w task of
        (Inl e, w') \<Rightarrow> (Inl e, g, w')
      | (Inr r, w') \<Rightarrow> complete_batch exec w' (markTaskComplete g nodeId r) rest (acc @ [r]))"

datatype loop_exit = Complete | Deadlock | Threw string | OutOfFuel

record 'w plan_run =
  exit :: loop_exit
  run_results :: "SatelliteResult list"
  run_dag :: TaskDAG
  run_log :: "(string \<times> TaskDAG) list"
  run_world :: 'w

text \<open>
  The \<^verbatim>\<open>while (!isDAGComplete(dag))\<close> loop of \<^verbatim>\<open>executePlan\<close>, with a bound on the
  number of iterations: a run that has not left the loop within the bound ends as
  \<open>OutOfFuel\<close>, so a loop that never ends is one that is out of fuel for every bound.
\<close>

fun executePlan_fuel ::
  "nat \<Rightarrow> ('w \<Rightarrow> SatelliteTask \<Rightarrow> (string + SatelliteResult) \<times> 'w) \<Rightarrow> SatelliteTask list \<Rightarrow>
   'w \<Rightarrow> TaskDAG \<Rightarrow> SatelliteResult list \<Rightarrow> (string \<times> TaskDAG) list \<Rightarrow> 'w plan_run" where
  "executePlan_fuel 0 exec ts w g rs lg =
     \<lparr> exit = OutOfFuel, run_results = rs, run_dag = g, run_log = lg, run_world = w \<rparr>"
| "executePlan_fuel (Suc n) exec ts w g rs lg =
     (if isDAGComplete g
      then \<lparr> exit = Complete, run_results = rs, run_dag = g, run_log = lg, run_world = w \<rparr>
      else
        (case getReadyTasks g of
           (readyNodes, g1) \<Rightarrow>
             if readyNodes = []
             then \<lparr> exit = Deadlock, run_results = rs, run_dag = g1, run_log = lg, run_world = w \<rparr>
             else
               (let b = dispatch_batch ts readyNodes
                          \<lparr> bs_dag = g1, bs_started = [], bs_log = lg, bs_error = None \<rparr>
                in case bs_error b of
                     Some e \<Rightarrow>
                       \<lparr> exit = Threw e, run_results = rs, run_dag = bs_dag b,
                         run_log = bs_log b, run_world = w \<rparr>
                   | None \<Rightarrow>
                       (case complete_batch exec w (bs_dag b) (bs_started b) [] of
                          (Inl e, g3, w3) \<Rightarrow>
                            \<lparr> exit = Threw e, run_results = rs, run_dag = g3,
                              run_log = bs_log b, run_world = w3 \<rparr>
                        | (Inr batchResults, g3, w3) \<Rightarrow>
                            executePlan_fuel n exec ts w3 g3 (rs @ batchResults) (bs_log b)))))"

definition executePlan ::
  "nat \<Rightarrow> ('w \<Rightarrow> SatelliteTask \<Rightarrow> (string + SatelliteResult) \<times> 'w) \<Rightarrow> 'w \<Rightarrow> ExecutionPlan \<Rightarrow>
   'w plan_run" where
  "executePlan fuel exec w plan = executePlan_fuel fuel exec (tasks plan) w (dag plan) [] []"

text \<open>
  The plan that \<^verbatim>\<open>createExecutionPlan\<close> builds from the fallback of \<^verbatim>\<open>analyzAndPlan\<close>
  for the request \<^verbatim>\<open>say hello\<close>: one task for the whole request, with a fresh id, and
  the graph of \<^verbatim>\<open>buildDAG\<close>, whose node has the empty \<^verbatim>\<open>taskId\<close>.
\<close>

definition hello_plan :: ExecutionPlan where
  "hello_plan =
     \<lparr> plan_id = ''plan-1'', userIntent = ''say hello'',
       analysis = ''Direct execution of user request'',
       tasks = [\<lparr> task_id = ''task-1'', task_satelliteId = ''edison'',
                  task_description = ''say hello'', task_input = ''say hello'',
                  task_dependencies = [], task_priority = 5 \<rparr>],
       dag = buildDAG [\<lparr> pt_description = ''say hello'', pt_satellite = ''edison'',
                        pt_dependencies = [], pt_priority = 5 \<rparr>] \<rparr>"

text \<open>Every node is pending and waits for a dependency that is not completed.\<close>

definition all_blocked :: "TaskDAG \<Rightarrow> bool" where
  "all_blocked g = list_all (\<lambda>p. status (snd p) = Pending \<and> \<not> allDepsComplete g (snd p)) (nodes g)"

text \<open>The graph of two tasks that each name the other as dependency.\<close>

definition cycle_tasks :: "planning_task list" where
  "cycle_tasks =
     [\<lparr> pt_description = ''A'', pt_satellite = ''edison'', pt_dependencies = [''B''], pt_priority = 5 \<rparr>,
      \<lparr> pt_description = ''B'', pt_satellite = ''lilith'', pt_dependencies = [''A''], pt_priority = 5 \<rparr>]"

definition cycle_dag :: TaskDAG where
  "cycle_dag =
     \<lparr> nodes =
         [(''node_0'', \<lparr> node_id = ''node_0'', taskId = [], satelliteId = ''edison'', status = Pending,
                        dependencies = [''node_1''], dependents = [''node_1''], result = None \<rparr>),
          (''node_1'', \<lparr> node_id = ''node_1'', taskId = [], satelliteId = ''lilith'', status = Pending,
                        dependencies = [''node_0''], dependents = [''node_0''], result = None \<rparr>)],
       rootNodes = [], leafNodes = [] \<rparr>"

text \<open>
  The invariant of the graph under scheduling: the keys of the map are distinct, and
  every ready node has all its dependencies completed. A dispatch, as the log records
  it, is in order when the dispatched node is in the graph of that moment and all its
  dependencies are completed there.
\<close>

definition status_of :: "TaskDAG \<Rightarrow> string \<Rightarrow> node_status option" where
  "status_of g k = map_option status (map_of (nodes g) k)"

definition ready_inv :: "TaskDAG \<Rightarrow> bool" where
  "ready_inv g \<longleftrightarrow>
     distinct (map fst (nodes g))
   \<and> list_all (\<lambda>p. status (snd p) = Ready \<longrightarrow> allDepsComplete g (snd p)) (nodes g)"

definition dispatch_ok :: "string \<times> TaskDAG \<Rightarrow> bool" where
  "dispatch_ok d =
     (case map_of (nodes (snd d)) (fst d) of
        None \<Rightarrow> False
      | Some node \<Rightarrow> allDepsComplete (snd d) node)"

text \<open>Between two graphs, no status has changed except from pending to ready.\<close>

definition only_promotes :: "TaskDAG \<Rightarrow> TaskDAG \<Rightarrow> bool" where
  "only_promotes g g' \<longleftrightarrow>
     (\<forall>k. status_of g' k = status_of g k
          \<or> (status_of g k = Some Pending \<and> status_of g' k = Some Ready))"

text \<open>
  A plan of two tasks in a chain whose descriptions are the node ids, so that the task
  lookup of \<^verbatim>\<open>executePlan\<close> succeeds, and satellites that always succeed.
\<close>

definition chain_tasks :: "planning_task list" where
  "chain_tasks =
     [\<lparr> pt_description = ''node_0'', pt_satellite = ''pythagoras'', pt_dependencies = [], pt_priority = 5 \<rparr>,
      \<lparr> pt_description = ''node_1'', pt_satellite = ''edison'', pt_dependencies = [''node_0''],
        pt_priority = 5 \<rparr>]"

definition chain_plan :: ExecutionPlan where
  "chain_plan =
     \<lparr> plan_id = ''plan-2'', userIntent = ''research then write'', analysis = ''two steps'',
       tasks = [\<lparr> task_id = ''task-1'', task_satelliteId = ''pythagoras'',
                  task_description = ''node_0'', task_input = ''node_0'',
                  task_dependencies = [], task_priority = 5 \<rparr>,
                \<lparr> task_id = ''task-2'', task_satelliteId = ''edison'',
                  task_description = ''node_1'', task_input = ''node_1'',
                  task_dependencies = [''node_0''], task_priority = 5 \<rparr>],
       dag = buildDAG chain_tasks \<rparr>"

definition always_ok :: "unit \<Rightarrow> SatelliteTask \<Rightarrow> (string + SatelliteResult) \<times> unit" where
  "always_ok w t =
     (Inr \<lparr> res_taskId = task_id t, res_satelliteId = task_satelliteId t, res_success = True,
            res_output = ''done'', res_error = None \<rparr>, w)"

text \<open>
  Every node is pending and has at least one dependency: the graph that is left when
  only the nodes on dependency cycles, and the nodes waiting for them, remain.
\<close>

definition all_waiting :: "TaskDAG \<Rightarrow> bool" where
  "all_waiting g = list_all (\<lambda>p. status (snd p) = Pending \<and> dependencies (snd p) \<noteq> []) (nodes g)"

definition cycle_plan :: ExecutionPlan where
  "cycle_plan =
     \<lparr> plan_id = ''plan-3'', userIntent = ''A and B'', analysis = ''two tasks'',
       tasks = [\<lparr> task_id = ''task-1'', task_satelliteId = ''edison'',
                  task_description = ''A'', task_input = ''A'',
                  task_dependencies = [''B''], task_priority = 5 \<rparr>,
                \<lparr> task_id = ''task-2'', task_satelliteId = ''lilith'',
                  task_description = ''B'', task_input = ''B'',
                  task_dependencies = [''A''], task_priority = 5 \<rparr>],
       dag = buildDAG cycle_tasks \<rparr>"

section \<open>SHAKA: planning\<close>

text \<open>
  The outcome of an asynchronous call: it returns, it throws, or it never completes. An
  error is represented by its text.
\<close>

datatype 'a outcome = Returned 'a | Thrown string | Hangs

record PlanningResult =
  pr_analysis :: string
  pr_tasks :: "planning_task list"

text \<open>
  What the planner takes from outside: the replies of the language model to the planning
  prompt for a user input and to the reflection prompt for a plan and its graph; the
  reading of a reply (the match of \<^verbatim>\<open>/\{[\s\S]*\}/\<close> and \<^verbatim>\<open>JSON.parse\<close>; \<open>None\<close>: no match,
  or a syntax error; a reply whose JSON is not a planning result is left out); the ids
  that \<^verbatim>\<open>uuidv4\<close> draws, in order; and the write of the plan to Punk Records.
\<close>

record shaka_env =
  generate_plan :: "string \<Rightarrow> string outcome"
  generate_reflection :: "PlanningResult \<Rightarrow> TaskDAG \<Rightarrow> string outcome"
  read_plan :: "string \<Rightarrow> PlanningResult option"
  fresh_id :: "nat \<Rightarrow> string"
  storeResult :: "ExecutionPlan \<Rightarrow> unit outcome"

text \<open>
  \<^verbatim>\<open>analyzAndPlan\<close>: a reply that cannot be read gives the fallback, one task for the
  whole request.
\<close>

definition analyzAndPlan :: "shaka_env \<Rightarrow> string \<Rightarrow> PlanningResult outcome" where
  "analyzAndPlan env userInput =
     (case generate_plan env userInput of
        Hangs \<Rightarrow> Hangs
      | Thrown e \<Rightarrow> Thrown e
      | Returned response \<Rightarrow>
          Returned (case read_plan env response of
                      Some p \<Rightarrow> p
                    | None \<Rightarrow>
                        \<lparr> pr_analysis = ''Direct execution of user request'',
                          pr_tasks = [\<lparr> pt_description = userInput, pt_satellite = ''edison'',
                                       pt_dependencies = [], pt_priority = 5 \<rparr>] \<rparr>))"

text \<open>
  \<^verbatim>\<open>reflectOnPlan\<close>: plans of at most two tasks are returned as they are; a revision is
  taken when it can be read and has a task.
\<close>

definition reflectOnPlan :: "shaka_env \<Rightarrow> PlanningResult \<Rightarrow> TaskDAG \<Rightarrow> PlanningResult outcome" where
  "reflectOnPlan env plan g =
     (if length (pr_tasks plan) \<le> 2 then Returned plan
      else
        (case generate_reflection env plan g of
           Hangs \<Rightarrow> Hangs
         | Thrown e \<Rightarrow> Thrown e
         | Returned response \<Rightarrow>
             Returned (case read_plan env response of
                         Some improved \<Rightarrow> if pr_tasks improved \<noteq> [] then improved else plan
                       | None \<Rightarrow> plan)))"

text \<open>
  \<^verbatim>\<open>createExecutionPlan\<close>: the graph is built from the tasks of the first planning
  result, the task list from those of the reflected one; every task gets a fresh id, and
  so does the plan.
\<close>

definition make_tasks :: "(nat \<Rightarrow> string) \<Rightarrow> planning_task list \<Rightarrow> SatelliteTask list" where
  "make_tasks ids pts =
     map (\<lambda>(i, t). \<lparr> task_id = ids i, task_satelliteId = pt_satellite t,
                      task_description = pt_description t, task_input = pt_description t,
                      task_dependencies = pt_dependencies t, task_priority = pt_priority t \<rparr>)
       (enumerate 0 pts)"

definition createExecutionPlan :: "shaka_env \<Rightarrow> string \<Rightarrow> ExecutionPlan outcome" where
  "createExecutionPlan env userInput =
     (case analyzAndPlan env userInput of
        Hangs \<Rightarrow> Hangs
      | Thrown e \<Rightarrow> Thrown e
      | Returned planningResult \<Rightarrow>
          (let g = buildDAG (pr_tasks planningResult)
           in case reflectOnPlan env planningResult g of
                Hangs \<Rightarrow> Hangs
              | Thrown e \<Rightarrow> Thrown e
              | Returned reflectedPlan \<Rightarrow>
                  (let ts = make_tasks (fresh_id env) (pr_tasks reflectedPlan);
                       plan = \<lparr> plan_id = fresh_id env (length ts), userIntent = userInput,
                                analysis = pr_analysis reflectedPlan, tasks = ts, dag = g \<rparr>
                   in case storeResult env plan of
                        Hangs \<Rightarrow> Hangs
                      | Thrown e \<Rightarrow> Thrown e
                      | Returned u \<Rightarrow> Returned plan)))"

text \<open>
  The result of \<^verbatim>\<open>Shaka.execute\<close>. Its output is the text \<^verbatim>\<open>JSON.stringify(plan)\<close>; the
  text is not modelled, the result carries the plan that was written (\<open>None\<close> for the
  empty output of a failure result).
\<close>

record PlanResult = SatelliteResult +
  res_plan :: "ExecutionPlan option"

text \<open>
  \<^verbatim>\<open>Shaka.execute\<close>: an error of \<^verbatim>\<open>createExecutionPlan\<close> is caught and returned as a
  failure result.
\<close>

definition shaka_execute_plan :: "shaka_env \<Rightarrow> string \<Rightarrow> string \<Rightarrow> PlanResult outcome" where
  "shaka_execute_plan env tid userInput =
     (case createExecutionPlan env userInput of
        Hangs \<Rightarrow> Hangs
      | Thrown e \<Rightarrow>
          Returned \<lparr> res_taskId = tid, res_satelliteId = ''shaka'', res_success = False,
                     res_output = [], res_error = Some e, res_plan = None \<rparr>
      | Returned plan \<Rightarrow>
          Returned \<lparr> res_taskId = tid, res_satelliteId = ''shaka'', res_success = True,
                     res_output = [], res_error = None, res_plan = Some plan \<rparr>)"

section \<open>The plan on its way to the scheduler\<close>

text \<open>
  The value found at \<^verbatim>\<open>dag.nodes\<close>: the \<^verbatim>\<open>Map\<close> that \<^verbatim>\<open>buildDAG\<close> creates, or a plain
  object with its own properties, which is what \<^verbatim>\<open>JSON.parse\<close> builds for \<^verbatim>\<open>{...}\<close>.
\<close>

datatype nodes_value = MapValue "(string \<times> DAGNode) list" | ObjectValue "(string \<times> DAGNode) list"

record PlanValue =
  pv_id :: string
  pv_userIntent :: string
  pv_analysis :: string
  pv_tasks :: "SatelliteTask list"
  pv_nodes :: nodes_value
  pv_rootNodes :: "string list"
  pv_leafNodes :: "string list"

text \<open>The plan as \<^verbatim>\<open>createExecutionPlan\<close> returns it, in memory.\<close>

definition in_memory :: "ExecutionPlan \<Rightarrow> PlanValue" where
  "in_memory plan =
     \<lparr> pv_id = plan_id plan, pv_userIntent = userIntent plan, pv_analysis = analysis plan,
       pv_tasks = tasks plan, pv_nodes = MapValue (nodes (dag plan)),
       pv_rootNodes = rootNodes (dag plan), pv_leafNodes = leafNodes (dag plan) \<rparr>"

text \<open>
  \<^verbatim>\<open>JSON.parse(JSON.stringify(plan))\<close>: strings, numbers and arrays come back as they
  were; a \<^verbatim>\<open>Map\<close> has no enumerable own property, so \<^verbatim>\<open>JSON.stringify\<close> writes
  \<^verbatim>\<open>plan.dag.nodes\<close> as \<^verbatim>\<open>{}\<close> and \<^verbatim>\<open>JSON.parse\<close> reads a plain object without
  properties.
\<close>

definition JSON_roundtrip :: "ExecutionPlan \<Rightarrow> PlanValue" where
  "JSON_roundtrip plan =
     \<lparr> pv_id = plan_id plan, pv_userIntent = userIntent plan, pv_analysis = analysis plan,
       pv_tasks = tasks plan, pv_nodes = ObjectValue [],
       pv_rootNodes = rootNodes (dag plan), pv_leafNodes = leafNodes (dag plan) \<rparr>"

text \<open>
  \<^verbatim>\<open>executePlan\<close> on the value it is called with. The loop condition calls
  \<^verbatim>\<open>isDAGComplete\<close>, which calls \<^verbatim>\<open>dag.nodes.forEach\<close>: on a \<^verbatim>\<open>Map\<close> the loop runs as
  \<open>executePlan_fuel\<close>; a plain object has no such method, and the call throws a
  \<^verbatim>\<open>TypeError\<close> before the first iteration.
\<close>

definition forEach_error :: string where
  "forEach_error = ''TypeError: dag.nodes.forEach is not a function''"

definition executePlan_value ::
  "nat \<Rightarrow> ('w \<Rightarrow> SatelliteTask \<Rightarrow> (string + SatelliteResult) \<times> 'w) \<Rightarrow> 'w \<Rightarrow> PlanValue \<Rightarrow>
   'w plan_run" where
  "executePlan_value fuel exec w p =
     (case pv_nodes p of
        MapValue m \<Rightarrow>
          executePlan_fuel fuel exec (pv_tasks p) w
            \<lparr> nodes = m, rootNodes = pv_rootNodes p, leafNodes = pv_leafNodes p \<rparr> [] []
      | ObjectValue props \<Rightarrow>
          \<lparr> exit = Threw forEach_error, run_results = [],
            run_dag = \<lparr> nodes = props, rootNodes = pv_rootNodes p, leafNodes = pv_leafNodes p \<rparr>,
            run_log = [], run_world = w \<rparr>)"

section \<open>The mesh: processing a request\<close>

record mesh_state =
  isProcessing :: bool
  activePlan :: "PlanValue option"
  york :: york_state
  emitted :: "string list"

text \<open>
  What a request takes from outside: the environment of the planner, the satellites with
  the state of the outside world and a bound on the iterations of the scheduler loop,
  the critique of LILITH and the synthesis of SHAKA.
\<close>

record 'w mesh_env =
  planner :: shaka_env
  plan_fuel :: nat
  satellites :: "'w \<Rightarrow> SatelliteTask \<Rightarrow> (string + SatelliteResult) \<times> 'w"
  world :: 'w
  lilith_critique :: "string \<Rightarrow> Critique outcome"
  synthesizeResults :: "TaskDAG \<Rightarrow> string \<Rightarrow> string outcome"

text \<open>The call \<^verbatim>\<open>this.shaka.execute(planTask)\<close> of \<^verbatim>\<open>processRequest\<close>.\<close>

definition shaka_execute :: "'w mesh_env \<Rightarrow> string \<Rightarrow> PlanResult outcome" where
  "shaka_execute env userInput = shaka_execute_plan (planner env) ''plan-task'' userInput"

fun join_with :: "string \<Rightarrow> string list \<Rightarrow> string" where
  "join_with sep [] = []"
| "join_with sep [x] = x"
| "join_with sep (x # y # ys) = x @ sep @ join_with sep (y # ys)"

text \<open>The note appended for a critique that is not approved (its emoji is left out).\<close>

definition quality_note :: "int \<Rightarrow> string" where
  "quality_note sc =
     [CHR 0x0A, CHR 0x0A] @ ''Quality Note: Some issues were detected (score: ''
       @ showNat (nat sc) @ ''/100)''"

definition track_turn :: "mesh_state \<Rightarrow> string \<Rightarrow> string \<Rightarrow> mesh_state" where
  "track_turn st role txt =
     st\<lparr> york := fst (addConversationTurn (york st)
                        \<lparr> turn_id = [], turn_role = role, turn_content = txt,
                          tokenCount = estimateTokens txt \<rparr>) \<rparr>"

text \<open>
  The \<^verbatim>\<open>try\<close> block of \<^verbatim>\<open>processRequest\<close>, in three stages. Beside the outcome and
  the state, each stage returns the states in which the request waits for a call to
  complete: the states another call of \<^verbatim>\<open>processRequest\<close> can meet while this one is in
  flight.
\<close>

definition finish_request ::
  "'w mesh_env \<Rightarrow> mesh_state \<Rightarrow> string \<Rightarrow> 'w plan_run \<Rightarrow>
   string outcome \<times> mesh_state \<times> mesh_state list" where
  "finish_request env st userInput run =
     (let finalOutput = join_with [CHR 0x0A, CHR 0x0A] (map res_output (run_results run))
      in case lilith_critique env finalOutput of
           Hangs \<Rightarrow> (Hangs, st, [st])
         | Thrown e \<Rightarrow> (Thrown e, st, [st])
         | Returned crit \<Rightarrow>
             (case synthesizeResults env (run_dag run) userInput of
                Hangs \<Rightarrow> (Hangs, st, [st, st])
              | Thrown e \<Rightarrow> (Thrown e, st, [st, st])
              | Returned response0 \<Rightarrow>
                  (let response = (if \<not> approved crit
                                   then response0 @ quality_note (Critique.score crit)
                                   else response0);
                       st1 = track_turn st ''assistant'' response
                   in (Returned response,
                       st1\<lparr> emitted := emitted st1 @ [''all_complete''] \<rparr>, [st, st]))))"

definition execute_request ::
  "'w mesh_env \<Rightarrow> mesh_state \<Rightarrow> string \<Rightarrow> PlanValue \<Rightarrow>
   string outcome \<times> mesh_state \<times> mesh_state list" where
  "execute_request env st userInput plan =
     (let st1 = st\<lparr> activePlan := Some plan, emitted := emitted st @ [''plan_created''] \<rparr>;
          run = executePlan_value (plan_fuel env) (satellites env) (world env) plan
      in case exit run of
           OutOfFuel \<Rightarrow> (Hangs, st1, [st1])
         | Threw e \<Rightarrow> (Thrown e, st1, [st1])
         | Complete \<Rightarrow>
             (case finish_request env st1 userInput run of
                (out, st2, trace) \<Rightarrow> (out, st2, st1 # trace))
         | Deadlock \<Rightarrow>
             (case finish_request env st1 userInput run of
                (out, st2, trace) \<Rightarrow> (out, st2, st1 # trace)))"

text \<open>
  The plan that \<^verbatim>\<open>processRequest\<close> works with is \<^verbatim>\<open>JSON.parse(planResult.output)\<close>:
  the plan that SHAKA wrote, after its way through JSON. The empty output of a failure
  result is not reached; parsing it would be a syntax error.
\<close>

definition request_body ::
  "'w mesh_env \<Rightarrow> mesh_state \<Rightarrow> string \<Rightarrow> string outcome \<times> mesh_state \<times> mesh_state list" where
  "request_body env st userInput =
     (let st1 = track_turn st ''user'' userInput
      in case shaka_execute env userInput of
           Hangs \<Rightarrow> (Hangs, st1, [st1])
         | Thrown e \<Rightarrow> (Thrown e, st1, [st1])
         | Returned planResult \<Rightarrow>
             if \<not> res_success planResult
             then (Thrown (''Planning failed: '' @
                     (case res_error planResult of None \<Rightarrow> ''undefined'' | Some e \<Rightarrow> e)),
                   st1, [st1])
             else
               (case res_plan planResult of
                  None \<Rightarrow> (Thrown ''SyntaxError'', st1, [st1])
                | Some plan \<Rightarrow>
                    (case execute_request env st1 userInput (JSON_roundtrip plan) of
                       (out, st2, trace) \<Rightarrow> (out, st2, st1 # trace))))"

text \<open>
  \<^verbatim>\<open>processRequest\<close>: the guard, the flag, the \<^verbatim>\<open>try\<close> block, the \<^verbatim>\<open>catch\<close> that
  emits the error event and throws again, and the \<^verbatim>\<open>finally\<close> that resets the flag
  and the active plan. A body that never completes never reaches \<^verbatim>\<open>finally\<close>.
\<close>

definition run_request ::
  "'w mesh_env \<Rightarrow> mesh_state \<Rightarrow> string \<Rightarrow> string outcome \<times> mesh_state \<times> mesh_state list" where
  "run_request env st userInput =
     (case request_body env (st\<lparr> isProcessing := True \<rparr>) userInput of
        (Hangs, st1, trace) \<Rightarrow> (Hangs, st1, trace)
      | (Thrown e, st1, trace) \<Rightarrow>
          (Thrown e,
           st1\<lparr> emitted := emitted st1 @ [''error''], isProcessing := False, activePlan := None \<rparr>,
           trace)
      | (Returned response, st1, trace) \<Rightarrow>
          (Returned response, st1\<lparr> isProcessing := False, activePlan := None \<rparr>, trace))"

definition processRequest ::
  "'w mesh_env \<Rightarrow> mesh_state \<Rightarrow> string \<Rightarrow> string outcome \<times> mesh_state \<times> mesh_state list" where
  "processRequest env st userInput =
     (if isProcessing st then (Thrown ''Already processing a request'', st, [])
      else run_request env st userInput)"

text \<open>A stage keeps the flag: in the state it returns and in every state it waits in.\<close>

definition flag_kept :: "mesh_state \<Rightarrow> string outcome \<times> mesh_state \<times> mesh_state list \<Rightarrow> bool" where
  "flag_kept st r \<longleftrightarrow>
     isProcessing (fst (snd r)) = isProcessing st
   \<and> list_all (\<lambda>s. isProcessing s = isProcessing st) (snd (snd r))"

definition idle_mesh :: mesh_state where
  "idle_mesh = \<lparr> isProcessing = False, activePlan = None, york = york_init, emitted = [] \<rparr>"

text \<open>
  Environments for the examples. The language model replies with a fixed text, which
  the reading either takes for a given planning result or cannot read; the reply to the
  reflection prompt is never read as a plan; ids are drawn from a list; the write to
  Punk Records succeeds. The satellites always succeed; critique and synthesis are not
  reached.
\<close>

definition ids_from :: "string list \<Rightarrow> nat \<Rightarrow> string" where
  "ids_from xs i = (if i < length xs then xs ! i else ''id'')"

definition replying_planner :: "string list \<Rightarrow> PlanningResult option \<Rightarrow> shaka_env" where
  "replying_planner ids reading =
     \<lparr> generate_plan = (\<lambda>i. Returned ''reply''),
       generate_reflection = (\<lambda>p g. Returned ''keep''),
       read_plan = (\<lambda>s. if s = ''reply'' then reading else None),
       fresh_id = ids_from ids,
       storeResult = (\<lambda>p. Returned ()) \<rparr>"

definition mesh_with :: "shaka_env \<Rightarrow> unit mesh_env" where
  "mesh_with pl =
     \<lparr> planner = pl, plan_fuel = 10, satellites = always_ok, world = (),
       lilith_critique = (\<lambda>s. Hangs), synthesizeResults = (\<lambda>g s. Hangs) \<rparr>"

text \<open>The reply to \<^verbatim>\<open>say hello\<close> holds no JSON: the planner falls back to one task.\<close>

definition hello_env :: "unit mesh_env" where
  "hello_env = mesh_with (replying_planner [''task-1'', ''plan-1''] None)"

text \<open>The reply plans two tasks that each depend on the other.\<close>

definition cycle_env :: "unit mesh_env" where
  "cycle_env =
     mesh_with (replying_planner [''task-1'', ''task-2'', ''plan-3'']
                  (Some \<lparr> pr_analysis = ''two tasks'', pr_tasks = cycle_tasks \<rparr>))"

text \<open>The reply plans a task without dependency beside two that depend on each other.\<close>

definition free_cycle_tasks :: "planning_task list" where
  "free_cycle_tasks =
     [\<lparr> pt_description = ''research'', pt_satellite = ''pythagoras'', pt_dependencies = [],
        pt_priority = 5 \<rparr>,
      \<lparr> pt_description = ''A'', pt_satellite = ''edison'', pt_dependencies = [''B''], pt_priority = 5 \<rparr>,
      \<lparr> pt_description = ''B'', pt_satellite = ''lilith'', pt_dependencies = [''A''], pt_priority = 5 \<rparr>]"

definition free_cycle_env :: "unit mesh_env" where
  "free_cycle_env =
     mesh_with (replying_planner [''task-1'', ''task-2'', ''task-3'', ''plan-5'']
                  (Some \<lparr> pr_analysis = ''three tasks'', pr_tasks = free_cycle_tasks \<rparr>))"

definition free_cycle_plan :: ExecutionPlan where
  "free_cycle_plan =
     \<lparr> plan_id = ''plan-5'', userIntent = ''research, A and B'', analysis = ''three tasks'',
       tasks = [\<lparr> task_id = ''task-1'', task_satelliteId = ''pythagoras'',
                  task_description = ''research'', task_input = ''research'',
                  task_dependencies = [], task_priority = 5 \<rparr>,
                \<lparr> task_id = ''task-2'', task_satelliteId = ''edison'',
                  task_description = ''A'', task_input = ''A'',
                  task_dependencies = [''B''], task_priority = 5 \<rparr>,
                \<lparr> task_id = ''task-3'', task_satelliteId = ''lilith'',
                  task_description = ''B'', task_input = ''B'',
                  task_dependencies = [''A''], task_priority = 5 \<rparr>],
       dag = buildDAG free_cycle_tasks \<rparr>"

text \<open>The language model is down: the planning call throws.\<close>

definition failing_planner :: "unit mesh_env" where
  "failing_planner =
     \<lparr> planner = \<lparr> generate_plan = (\<lambda>i. Thrown ''model offline''),
                   generate_reflection = (\<lambda>p g. Thrown ''model offline''),
                   read_plan = (\<lambda>s. None), fresh_id = ids_from [],
                   storeResult = (\<lambda>p. Returned ()) \<rparr>,
       plan_fuel = 0, satellites = always_ok, world = (),
       lilith_critique = (\<lambda>s. Hangs), synthesizeResults = (\<lambda>g s. Hangs) \<rparr>"

text \<open>
  A set of nodes that wait for each other: every node of the list is in the graph, is
  pending, and has a dependency in the list. The nodes of a dependency cycle are such
  a list.
\<close>

definition stuck_set :: "TaskDAG \<Rightarrow> string list \<Rightarrow> bool" where
  "stuck_set g C \<longleftrightarrow>
     C \<noteq> []
   \<and> list_all (\<lambda>k. case map_of (nodes g) k of
                     None \<Rightarrow> False
                   | Some node \<Rightarrow>
                       status node = Pending \<and> list_ex (\<lambda>d. d \<in> set C) (dependencies node)) C"

text \<open>A graph with a ready root beside the cycle of two.\<close>

definition root_and_cycle :: TaskDAG where
  "root_and_cycle =
     \<lparr> nodes =
         [(''node_0'', \<lparr> node_id = ''node_0'', taskId = [], satelliteId = ''pythagoras'', status = Ready,
                        dependencies = [], dependents = [], result = None \<rparr>),
          (''node_1'', \<lparr> node_id = ''node_1'', taskId = [], satelliteId = ''edison'', status = Pending,
                        dependencies = [''node_2''], dependents = [''node_2''], result = None \<rparr>),
          (''node_2'', \<lparr> node_id = ''node_2'', taskId = [], satelliteId = ''lilith'', status = Pending,
                        dependencies = [''node_1''], dependents = [''node_1''], result = None \<rparr>)],
       rootNodes = [''node_0''], leafNodes = [''node_0''] \<rparr>"

definition root_cycle_plan :: ExecutionPlan where
  "root_cycle_plan =
     \<lparr> plan_id = ''plan-4'', userIntent = ''three tasks'', analysis = ''a root and a cycle'',
       tasks = [\<lparr> task_id = ''task-1'', task_satelliteId = ''pythagoras'',
                  task_description = ''node_0'', task_input = ''node_0'',
                  task_dependencies = [], task_priority = 5 \<rparr>,
                \<lparr> task_id = ''task-2'', task_satelliteId = ''edison'',
                  task_description = ''node_1'', task_input = ''node_1'',
                  task_dependencies = [''node_2''], task_priority = 5 \<rparr>,
                \<lparr> task_id = ''task-3'', task_satelliteId = ''lilith'',
                  task_description = ''node_2'', task_input = ''node_2'',
                  task_dependencies = [''node_1''], task_priority = 5 \<rparr>],
       dag = root_and_cycle \<rparr>"

text \<open>
  The measure of the scheduler loop and the conditions under which it decreases: the
  number of nodes that are neither completed nor failed; every node has a task that
  the lookup of \<^verbatim>\<open>executePlan\<close> finds; and the satellites return a result for every
  task.
\<close>

definition is_open :: "node_status option \<Rightarrow> bool" where
  "is_open s \<longleftrightarrow> s \<noteq> Some Completed \<and> s \<noteq> Some Failed"

definition open_count :: "TaskDAG \<Rightarrow> nat" where
  "open_count g = length (filter (\<lambda>k. is_open (status_of g k)) (map fst (nodes g)))"

definition task_keys :: "TaskDAG \<Rightarrow> (string \<times> string) list" where
  "task_keys g = map (\<lambda>p. (fst p, taskId (snd p))) (nodes g)"

definition tasks_found :: "SatelliteTask list \<Rightarrow> TaskDAG \<Rightarrow> bool" where
  "tasks_found ts g =
     list_all (\<lambda>q. find (\<lambda>t. task_id t = snd q \<or> task_description t = fst q) ts \<noteq> None)
       (task_keys g)"

definition exec_returns :: "('w \<Rightarrow> SatelliteTask \<Rightarrow> (string + SatelliteResult) \<times> 'w) \<Rightarrow> bool" where
  "exec_returns exec \<longleftrightarrow> (\<forall>w t. \<exists>r w'. exec w t = (Inr r, w'))"

text \<open>Between two graphs, the nodes and their tasks are the same and no completed or
  failed node has changed.\<close>

definition advances :: "TaskDAG \<Rightarrow> TaskDAG \<Rightarrow> bool" where
  "advances g g' \<longleftrightarrow>
     task_keys g' = task_keys g
   \<and> (\<forall>k. \<not> is_open (status_of g k) \<longrightarrow> status_of g' k = status_of g k)"

section \<open>Properties of the critique score\<close>

lemma calculateScore_loop_counts:
  "calculateScore_loop sc is =
     sc - 25 * count_severity critical is - 15 * count_severity major is
        - 5 * count_severity minor is - count_severity info is"
proof (induction "is" arbitrary: sc)
  case Nil
  show ?case by (simp add: count_severity_def)
next
  case (Cons i rest)
  show ?case
    by (cases "severity i") (simp_all add: Cons.IH count_severity_def)
qed

text \<open>
  C7. For every list of issues the score is
  \<open>max 0 (100 - 25 * #critical - 15 * #major - 5 * #minor - #info)\<close>; the critique is
  approved exactly when the score is at least 70 and no issue is critical; a critique
  with exactly one critical and one minor issue scores 70 and is not approved.
\<close>

theorem C7_score_and_approval:
  "Critique.score (critique st llm fc ty tid) =
      max 0 (100 - 25 * count_severity critical (issues (critique st llm fc ty tid))
                 - 15 * count_severity major (issues (critique st llm fc ty tid))
                 - 5 * count_severity minor (issues (critique st llm fc ty tid))
                 - count_severity info (issues (critique st llm fc ty tid)))
   \<and> (approved (critique st llm fc ty tid) \<longleftrightarrow>
        Critique.score (critique st llm fc ty tid) \<ge> 70
        \<and> (\<forall>i \<in> set (issues (critique st llm fc ty tid)). severity i \<noteq> critical))
   \<and> (severity a = critical \<and> severity b = minor \<longrightarrow>
        calculateScore [a, b] = 70 \<and> Critique.score (critique [] [a, b] [] ty tid) = 70
        \<and> \<not> approved (critique [] [a, b] [] ty tid))"
  by (simp add: critique_def Let_def calculateScore_def calculateScore_loop_counts
      list_ex_iff count_severity_def)

theorem C7_score_and_approval_witness:
  "Critique.score (critique [] [\<lparr>issue_type = ''security'', severity = critical, description = ''eval''\<rparr>,
                        \<lparr>issue_type = ''warning'', severity = minor, description = ''log''\<rparr>] []
                   tt_output ''r1'') = 70
   \<and> \<not> approved (critique [] [\<lparr>issue_type = ''security'', severity = critical, description = ''eval''\<rparr>,
                        \<lparr>issue_type = ''warning'', severity = minor, description = ''log''\<rparr>] []
                   tt_output ''r1'')"
  using C7_score_and_approval [where
      a = "\<lparr>issue_type = ''security'', severity = critical, description = ''eval''\<rparr>" and
      b = "\<lparr>issue_type = ''warning'', severity = minor, description = ''log''\<rparr>" and
      st = "[]" and llm = "[]" and fc = "[]" and ty = tt_output and tid = "''r1''"]
  by simp

section \<open>Properties of the retry loop\<close>



















section \<open>Properties of chunking\<close>

lemma js_split_aux_no_occurrence:
  "\<not> sublist sep rest \<Longrightarrow> js_split_aux sep acc rest = [acc @ rest]"
proof (induction rest arbitrary: acc)
  case Nil
  show ?case by simp
next
  case (Cons c cs)
  from Cons.prems have np: "\<not> prefix sep (c # cs)" and ns: "\<not> sublist sep cs"
    by (auto simp: sublist_Cons_right)
  from Cons.IH[OF ns] np show ?case by simp
qed

lemma js_split_no_occurrence:
  "\<not> str_includes s sep \<Longrightarrow> js_split s sep = [s]"
  unfolding str_includes_def js_split_def
  by (auto simp: js_split_aux_no_occurrence)

lemma not_includes_disjoint:
  "sep \<noteq> [] \<Longrightarrow> set sep \<inter> set s = {} \<Longrightarrow> \<not> str_includes s sep"
  unfolding str_includes_def
  by (metis Int_absorb2 set_empty set_mono_sublist)

lemma chunk_words_bound:
  "\<forall>w \<in> set ws. int (length w) \<le> sz \<Longrightarrow>
   \<forall>c \<in> set chunks. int (length c) \<le> sz \<Longrightarrow> int (length cur) \<le> sz \<Longrightarrow>
   chunk_words sz (chunks, cur) ws = (chunks', cur') \<Longrightarrow>
   (\<forall>c \<in> set chunks'. int (length c) \<le> sz) \<and> int (length cur') \<le> sz"
proof (induction ws arbitrary: chunks cur)
  case Nil
  then show ?case by simp
next
  case (Cons w ws)
  show ?case
  proof (cases "int (length (cur @ '' '' @ w)) \<le> sz")
    case True
    with Cons.prems have run: "chunk_words sz (chunks, cur @ (if cur \<noteq> [] then '' '' else []) @ w) ws = (chunks', cur')"
      by simp
    from True have "int (length (cur @ (if cur \<noteq> [] then '' '' else []) @ w)) \<le> sz" by auto
    from Cons.IH[OF _ Cons.prems(2) this run] Cons.prems(1) show ?thesis by simp
  next
    case False
    with Cons.prems have run: "chunk_words sz ((if cur \<noteq> [] then chunks @ [cur] else chunks), w) ws = (chunks', cur')"
      by simp
    have "\<forall>c \<in> set (if cur \<noteq> [] then chunks @ [cur] else chunks). int (length c) \<le> sz"
      using Cons.prems(2,3) by auto
    from Cons.IH[OF _ this _ run] Cons.prems(1) show ?thesis by simp
  qed
qed

lemma chunkText_single_word:
  assumes ne: "txt \<noteq> []" and nosep: "\<not> str_includes txt (effective_separator config)"
    and nosp: "CHR '' '' \<notin> set txt" and ov: "chunkOverlap config \<le> 0"
  shows "chunkText txt config = [txt]"
proof -
  have w: "js_split txt '' '' = [txt]"
    using nosp by (intro js_split_no_occurrence not_includes_disjoint) auto
  show ?thesis
    using ne ov unfolding chunkText_def
    by (simp add: js_split_no_occurrence[OF nosep] w Let_def)
qed


lemma js_split_aux_nonempty: "js_split_aux sep acc rest \<noteq> []"
  by (induction sep acc rest rule: js_split_aux.induct) auto

lemma chunkText_single_segment_bound:
  assumes ov: "chunkOverlap config \<le> 0"
    and nosep: "\<not> str_includes str (effective_separator config)"
    and words: "\<forall>w \<in> set (js_split str '' ''). int (length w) \<le> chunkSize config"
  shows "\<forall>c \<in> set (chunkText str config). int (length c) \<le> chunkSize config"
proof -
  let ?sz = "chunkSize config"
  have seg: "js_split str (effective_separator config) = [str]"
    using nosep by (rule js_split_no_occurrence)
  have "js_split str '' '' \<noteq> []"
    by (simp add: js_split_def js_split_aux_nonempty)
  then obtain w where "w \<in> set (js_split str '' '')" by (cases "js_split str '' ''") auto
  with words have sz0: "0 \<le> ?sz" by fastforce
  show ?thesis
  proof (cases "int (length str) \<le> ?sz")
    case True
    with ov show ?thesis by (simp add: chunkText_def seg Let_def)
  next
    case False
    obtain chunks' cur' where r: "chunk_words ?sz ([], []) (js_split str '' '') = (chunks', cur')"
      by (cases "chunk_words ?sz ([], []) (js_split str '' '')") auto
    from chunk_words_bound[OF words _ _ r] sz0
    have b: "(\<forall>c \<in> set chunks'. int (length c) \<le> ?sz) \<and> int (length cur') \<le> ?sz" by simp
    from False ov r have "chunkText str config = (if cur' \<noteq> [] then chunks' @ [cur'] else chunks')"
      by (simp add: chunkText_def seg Let_def)
    with b show ?thesis by auto
  qed
qed

lemma chunkText_a1000: "chunkText a1000 config100 = [a1000]"
proof (rule chunkText_single_word)
  show "a1000 \<noteq> []" by (simp add: a1000_def)
  show "\<not> str_includes a1000 (effective_separator config100)"
    by (rule not_includes_disjoint) (simp_all add: a1000_def config100_def effective_separator_def)
  show "CHR '' '' \<notin> set a1000" by (simp add: a1000_def)
  show "chunkOverlap config100 \<le> 0" by (simp add: config100_def)
qed

lemma chunkText_separator_not_counted:
  "chunkText (''aaaaa'' @ [CHR 0x0A, CHR 0x0A] @ ''bbbbb'')
             \<lparr> chunkSize = 10, chunkOverlap = 0, separator = None \<rparr>
   = [''aaaaa'' @ [CHR 0x0A, CHR 0x0A] @ ''bbbbb'']"
  by (simp add: chunkText_def effective_separator_def js_split_def Let_def)

text \<open>
  C4, as the claim states it, fails: the thousand letters contain neither the separator
  nor a space, so the word-level splitting has a single word, which is kept whole: the
  result is one chunk of 1000 characters, not chunks of at most 100.
\<close>

theorem C4_counterexample_long_word:
  "\<not> (\<forall>c \<in> set (chunkText a1000 config100). length c \<le> 100)"
  by (simp add: chunkText_a1000) (simp add: a1000_def)

text \<open>
  C4, amended. \<^verbatim>\<open>chunkText\<close> applied to 1000 letters a with chunk size 100 and overlap 0
  returns a single chunk, the whole input (so the concatenation of the chunks is the
  input). More generally, for an input in which the separator does not occur and with
  overlap 0, every chunk is at most \<^verbatim>\<open>chunkSize\<close> characters long provided no
  space-separated word of the input is longer than \<^verbatim>\<open>chunkSize\<close>: a longer input
  is split at word level, and a word is never cut.
\<close>

theorem C4_chunkText_amended:
  "chunkText a1000 config100 = [a1000] \<and> length a1000 = 1000
   \<and> concat (chunkText a1000 config100) = a1000
   \<and> (chunkOverlap config \<le> 0 \<and> \<not> str_includes str (effective_separator config)
        \<and> (\<forall>w \<in> set (js_split str '' ''). int (length w) \<le> chunkSize config)
      \<longrightarrow> (\<forall>c \<in> set (chunkText str config). int (length c) \<le> chunkSize config))"
  using chunkText_single_segment_bound [of config str]
  by (simp add: chunkText_a1000) (simp add: a1000_def)

lemma three_words_split: "js_split three_words '' '' = [''aaaa'', ''bbbb'', ''cccc'']"
  by (simp add: three_words_def js_split_def)

lemma three_words_chunks: "chunkText three_words config9 = [''aaaa bbbb'', ''cccc'']"
proof -
  have "\<not> str_includes three_words (effective_separator config9)"
    by (rule not_includes_disjoint) (simp_all add: three_words_def config9_def effective_separator_def)
  then have "js_split three_words (effective_separator config9) = [three_words]"
    by (rule js_split_no_occurrence)
  then show ?thesis
    by (simp add: chunkText_def Let_def three_words_split config9_def) (simp add: three_words_def)
qed

theorem C4_chunkText_amended_witness:
  "chunkOverlap config9 \<le> 0 \<and> \<not> str_includes three_words (effective_separator config9)
   \<and> list_all (\<lambda>w. int (length w) \<le> chunkSize config9) (js_split three_words '' '')
   \<and> list_all (\<lambda>c. int (length c) \<le> chunkSize config9) (chunkText three_words config9)
   \<and> chunkText three_words config9 = [''aaaa bbbb'', ''cccc'']"
proof -
  have h1: "chunkOverlap config9 \<le> 0" by (simp add: config9_def)
  have h2: "\<not> str_includes three_words (effective_separator config9)"
    by (rule not_includes_disjoint) (simp_all add: three_words_def config9_def effective_separator_def)
  have h3: "\<forall>w \<in> set (js_split three_words '' ''). int (length w) \<le> chunkSize config9"
    by (simp add: three_words_split config9_def)
  from C4_chunkText_amended [of config9 three_words] h1 h2 h3 three_words_chunks
  show ?thesis unfolding list_all_iff by blast
qed

section \<open>Properties of the hybrid search\<close>
























section \<open>Properties of the vector index\<close>

lemma db_get_put: "db_get (db_put db k v) k = Some v"
  unfolding db_get_def by (induction db k v rule: db_put.induct) auto

lemma semantic_results_single:
  "db_get db k0 = Some doc \<Longrightarrow> \<forall>n \<in> set ns. nb_id n = k0 \<Longrightarrow>
   \<forall>r \<in> set (semantic_results db ns). document r = doc"
  by (induction ns) (auto split: option.splits)

text \<open>
  C10. An \<^verbatim>\<open>addDocument\<close> call that returns a document with an embedding rebuilds the
  vector index from \<^verbatim>\<open>getAllEmbeddings()\<close>, which is empty, plus the new document:
  after the call the index holds exactly one entry, the new document's; the entries of
  earlier documents are gone; and a semantic search over it, given that the vector
  index returns only ids it holds, yields no document but the new one.
\<close>

theorem C10_vector_index_holds_only_newest:
  assumes add: "addDocument env st c md gen = (Inr doc, st')"
    and emb: "embedding doc = Some e"
  shows "getAllEmbeddings st = []
       \<and> voyIndex st' = [entry_of doc md e]
       \<and> length (voyIndex st') = 1
       \<and> map voy_id (voyIndex st') = [doc_id doc]
       \<and> (\<forall>x \<in> set (voyIndex st). voy_id x \<noteq> doc_id doc \<longrightarrow> x \<notin> set (voyIndex st'))
       \<and> (voy_returns_indexed senv st' \<longrightarrow>
            (\<forall>r \<in> set (semanticSearch senv st' q k). document r = doc))"
proof -
  from add obtain pe: "put_error env = None"
    by (cases "put_error env") (auto simp: addDocument_def Let_def)
  let ?doc0 = "\<lparr> doc_id = uuid env, content = c, metadata = md, embedding = None,
                    createdAt = now env, updatedAt = now env \<rparr>"
  let ?doc = "if gen then ?doc0\<lparr> embedding := embedding_of env c \<rparr> else ?doc0"
  from add pe have d: "doc = ?doc"
    by (auto simp: addDocument_def Let_def split: option.splits)
  from add pe emb d have st': "st' = st\<lparr> documents := db_put (documents st) (doc_id doc) doc,
                            flexIndex := flexIndex st @ [doc], voyIndex := [entry_of doc md e] \<rparr>"
    by (auto simp: addDocument_def Let_def getAllEmbeddings_def split: option.splits if_splits)
  have idx: "voyIndex st' = [entry_of doc md e]" by (simp add: st')
  have ids: "map voy_id (voyIndex st') = [doc_id doc]" by (simp add: idx entry_of_def)
  have dropped: "\<forall>x \<in> set (voyIndex st). voy_id x \<noteq> doc_id doc \<longrightarrow> x \<notin> set (voyIndex st')"
    by (auto simp: idx entry_of_def)
  have sem: "\<forall>r \<in> set (semanticSearch senv st' q k). document r = doc"
    if ok: "voy_returns_indexed senv st'"
  proof (cases "embed_query senv q")
    case None
    then show ?thesis by (simp add: semanticSearch_def)
  next
    case (Some qe)
    show ?thesis
    proof (cases "voy_search senv (voyIndex st') qe k")
      case None
      with Some show ?thesis by (simp add: semanticSearch_def)
    next
      case (Some ns)
      with ok have "set (map nb_id ns) \<subseteq> set (map voy_id (voyIndex st'))"
        unfolding voy_returns_indexed_def by blast
      then have all: "\<forall>n \<in> set ns. nb_id n = doc_id doc" unfolding ids by auto
      have get: "db_get (documents st') (doc_id doc) = Some doc"
        by (simp add: st' db_get_put)
      from semantic_results_single[OF get all] Some \<open>embed_query senv q = Some qe\<close>
      show ?thesis by (simp add: semanticSearch_def)
    qed
  qed
  from idx ids dropped sem show ?thesis by (simp add: getAllEmbeddings_def)
qed


lemma toy_add:
  "addDocument toy_add_env store_one ''second''
     \<lparr> md_source = ''note'', md_type = ''text'', md_title = None \<rparr> True
   = (Inr doc_second, store_two)"
  by (simp add: addDocument_def toy_add_env_def store_one_def Let_def getAllEmbeddings_def
      entry_of_def or_else_def doc_second_def store_two_def)

lemma toy_env_indexed: "voy_returns_indexed toy_env st"
  unfolding voy_returns_indexed_def toy_env_def
  by (auto dest!: in_set_takeD)

theorem C10_vector_index_holds_only_newest_witness:
  "addDocument toy_add_env store_one ''second''
     \<lparr> md_source = ''note'', md_type = ''text'', md_title = None \<rparr> True
   = (Inr doc_second, store_two)
   \<and> embedding doc_second = Some [1, 0]
   \<and> voyIndex store_two
       = [entry_of doc_second \<lparr> md_source = ''note'', md_type = ''text'', md_title = None \<rparr> [1, 0]]
   \<and> length (voyIndex store_one) = 1 \<and> length (voyIndex store_two) = 1
   \<and> voy_returns_indexed toy_env store_two
   \<and> list_all (\<lambda>r. document r = doc_second) (semanticSearch toy_env store_two ''second'' 5)"
proof -
  have emb: "embedding doc_second = Some [1, 0]" by (simp add: doc_second_def)
  from C10_vector_index_holds_only_newest [OF toy_add emb, of toy_env "''second''" 5]
    toy_add emb toy_env_indexed [of store_two]
  show ?thesis by (simp add: store_one_def list_all_iff)
qed

section \<open>Properties of context eviction\<close>

lemma usage_below_threshold:
  "real_of_int t / real_of_int MAX_CONTEXT_TOKENS < EVICTION_THRESHOLD \<longleftrightarrow> t \<le> 3276"
proof -
  have "real_of_int t / 4096 < 8 / 10 \<longleftrightarrow> real_of_int t * 10 < 8 * 4096"
    by (simp add: field_simps)
  also have "\<dots> \<longleftrightarrow> real_of_int (t * 10) < real_of_int 32768" by simp
  also have "\<dots> \<longleftrightarrow> t * 10 < 32768" by (simp only: of_int_less_iff)
  also have "\<dots> \<longleftrightarrow> t \<le> 3276" by arith
  finally show ?thesis by (simp add: MAX_CONTEXT_TOKENS_def EVICTION_THRESHOLD_def)
qed

lemma tokens_to_free:
  "\<lfloor>real_of_int t - real_of_int MAX_CONTEXT_TOKENS * TARGET_AFTER_EVICTION\<rfloor> = t - 2048"
proof -
  have "real_of_int t - real_of_int MAX_CONTEXT_TOKENS * TARGET_AFTER_EVICTION = real_of_int (t - 2048)"
    by (simp add: MAX_CONTEXT_TOKENS_def TARGET_AFTER_EVICTION_def)
  then show ?thesis by (simp only: floor_of_int)
qed

lemma count_messages_reaches:
  "tc + sum_list (map tokenCount ts) \<ge> toFree \<Longrightarrow> tc < toFree \<Longrightarrow>
   mc < count_messages toFree tc mc ts
   \<and> count_messages toFree tc mc ts \<le> mc + length ts
   \<and> tc + sum_list (map tokenCount (take (count_messages toFree tc mc ts - mc) ts)) \<ge> toFree"
proof (induction ts arbitrary: tc mc)
  case Nil
  then show ?case by simp
next
  case (Cons t ts)
  show ?case
  proof (cases "tc + tokenCount t \<ge> toFree")
    case True
    then show ?thesis by simp
  next
    case False
    then have lt: "tc + tokenCount t < toFree" by simp
    from Cons.prems have "tc + tokenCount t + sum_list (map tokenCount ts) \<ge> toFree" by simp
    from Cons.IH[OF this lt, of "mc + 1"] False
    have ih: "mc + 1 < count_messages toFree (tc + tokenCount t) (mc + 1) ts"
      "count_messages toFree (tc + tokenCount t) (mc + 1) ts \<le> mc + 1 + length ts"
      "tc + tokenCount t + sum_list (map tokenCount
          (take (count_messages toFree (tc + tokenCount t) (mc + 1) ts - (mc + 1)) ts)) \<ge> toFree"
      by auto
    let ?n = "count_messages toFree (tc + tokenCount t) (mc + 1) ts"
    have n: "count_messages toFree tc mc (t # ts) = ?n" using False by simp
    from ih(1) have "?n - mc = Suc (?n - (mc + 1))" by simp
    then have "take (?n - mc) (t # ts) = t # take (?n - (mc + 1)) ts" by simp
    with ih show ?thesis unfolding n by simp
  qed
qed


lemma performContextEviction_cut:
  assumes first: "performContextEviction env st = (Inr (CutComplete n orig cmp), st1)"
  shows "shouldEvict (evaluateEviction st)
       \<and> n = messagesToSummarize (evaluateEviction st)
       \<and> orig = sum_list (map tokenCount (take n (conversationHistory st)))
       \<and> conversationHistory st1 = drop n (conversationHistory st)
       \<and> contextTokens st1 = contextTokens st - orig
       \<and> maxContextTokens st1 = maxContextTokens st
       \<and> length (storedSlices st1) = Suc (length (storedSlices st))"
proof -
  let ?d = "evaluateEviction st"
  let ?ev = "take (messagesToSummarize ?d) (conversationHistory st)"
  from first have se: "shouldEvict ?d"
    by (auto simp: performContextEviction_def Let_def split: if_splits)
  with first have ne: "?ev \<noteq> []"
    by (auto simp: performContextEviction_def Let_def split: if_splits)
  from first se ne obtain sm where sm: "generateSummary env ?ev = Inr sm"
    by (cases "generateSummary env ?ev") (auto simp: performContextEviction_def Let_def)
  from first se ne sm obtain emb where emb: "generateEmbedding env sm = Inr emb"
    by (cases "generateEmbedding env sm") (auto simp: performContextEviction_def Let_def)
  from first se ne sm emb have so: "store_error env = None"
    by (cases "store_error env") (auto simp: performContextEviction_def Let_def)
  from first se ne sm emb so show ?thesis
    by (auto simp: performContextEviction_def Let_def)
qed

lemma eviction_then_quiet:
  assumes inv: "york_inv st"
    and first: "performContextEviction env st = (Inr (CutComplete n orig cmp), st1)"
  shows "performContextEviction env2 st1 = (Inr NoEvictionNeeded, st1)
       \<and> storedSlices (snd (performContextEviction env2 st1)) = storedSlices st1
       \<and> conversationHistory (snd (performContextEviction env2 st1)) = conversationHistory st1
       \<and> contextTokens (snd (performContextEviction env2 st1)) = contextTokens st1
       \<and> orig \<ge> tokensToFree (evaluateEviction st)
       \<and> real_of_int (contextTokens st1) / real_of_int (maxContextTokens st1) \<le> TARGET_AFTER_EVICTION
       \<and> york_inv st1"
proof -
  let ?t = "contextTokens st" and ?h = "conversationHistory st"
  from inv have mx: "maxContextTokens st = MAX_CONTEXT_TOKENS"
    and sum: "?t = sum_list (map tokenCount ?h)" by (simp_all add: york_inv_def)
  note cut = performContextEviction_cut[OF first]
  from cut have se: "shouldEvict (evaluateEviction st)" by simp
  have high: "\<not> ?t \<le> 3276"
  proof
    assume "?t \<le> 3276"
    then have "real_of_int ?t / real_of_int (maxContextTokens st) < EVICTION_THRESHOLD"
      unfolding mx by (simp only: usage_below_threshold)
    then have "\<not> shouldEvict (evaluateEviction st)" by (simp add: evaluateEviction_def Let_def)
    with se show False by contradiction
  qed
  then have nlt: "\<not> real_of_int ?t / real_of_int (maxContextTokens st) < EVICTION_THRESHOLD"
    unfolding mx by (simp only: usage_below_threshold simp_thms)
  have free: "tokensToFree (evaluateEviction st) = ?t - 2048"
    using nlt by (simp add: evaluateEviction_def Let_def mx tokens_to_free)
  have nn: "n = count_messages (?t - 2048) 0 0 ?h"
    using cut nlt by (simp add: evaluateEviction_def Let_def mx tokens_to_free)
  have "0 + sum_list (map tokenCount ?h) \<ge> ?t - 2048" using sum by simp
  moreover have "0 < ?t - 2048" using high by simp
  ultimately have "0 + sum_list (map tokenCount (take (count_messages (?t - 2048) 0 0 ?h - 0) ?h))
                     \<ge> ?t - 2048"
    using count_messages_reaches[of "?t - 2048" 0 ?h 0] by blast
  with cut nn have enough: "orig \<ge> ?t - 2048" by simp
  from cut have t1: "contextTokens st1 = ?t - orig" and m1: "maxContextTokens st1 = MAX_CONTEXT_TOKENS"
    and h1: "conversationHistory st1 = drop n ?h" using mx by simp_all
  from enough t1 have low: "contextTokens st1 \<le> 2048" by simp
  then have "contextTokens st1 \<le> 3276" by simp
  then have below: "real_of_int (contextTokens st1) / real_of_int (maxContextTokens st1) < EVICTION_THRESHOLD"
    unfolding m1 by (simp only: usage_below_threshold)
  then have "\<not> shouldEvict (evaluateEviction st1)" by (simp add: evaluateEviction_def Let_def)
  then have second: "performContextEviction env2 st1 = (Inr NoEvictionNeeded, st1)"
    by (simp add: performContextEviction_def Let_def)
  have half: "real_of_int (contextTokens st1) / real_of_int (maxContextTokens st1) \<le> TARGET_AFTER_EVICTION"
  proof -
    from low have "real_of_int (contextTokens st1) \<le> 2048" by linarith
    then show ?thesis by (simp add: m1 MAX_CONTEXT_TOKENS_def TARGET_AFTER_EVICTION_def)
  qed
  have "sum_list (map tokenCount ?h)
        = sum_list (map tokenCount (take n ?h)) + sum_list (map tokenCount (drop n ?h))"
    by (metis append_take_drop_id map_append sum_list.append)
  with sum cut t1 h1 have "contextTokens st1 = sum_list (map tokenCount (conversationHistory st1))"
    by simp
  with m1 have inv1: "york_inv st1" by (simp add: york_inv_def)
  from second free enough half inv1 show ?thesis by simp
qed

lemma york_inv_init: "york_inv york_init"
  by (simp add: york_inv_def york_init_def)

lemma york_inv_add: "york_inv st \<Longrightarrow> york_inv (fst (addConversationTurn st turn))"
  by (simp add: york_inv_def addConversationTurn_def Let_def)

lemma york_inv_clear: "york_inv st \<Longrightarrow> york_inv (clearContext st)"
  by (simp add: york_inv_def clearContext_def)

lemma york_inv_evict: "york_inv st \<Longrightarrow> york_inv (snd (performContextEviction env st))"
proof -
  assume inv: "york_inv st"
  show ?thesis
  proof (cases "performContextEviction env st")
    case (Pair r st1)
    show ?thesis
    proof (cases "\<exists>n orig cmp. r = Inr (CutComplete n orig cmp)")
      case True
      then obtain n orig cmp where "r = Inr (CutComplete n orig cmp)" by blast
      with Pair eviction_then_quiet[OF inv, of env n orig cmp st1] show ?thesis by simp
    next
      case False
      with Pair have "st1 = st"
        by (auto simp: performContextEviction_def Let_def split: if_splits sum.splits option.splits)
      with Pair inv show ?thesis by simp
    qed
  qed
qed

text \<open>
  C8. If a call of \<^verbatim>\<open>performContextEviction\<close> runs to its end and evicts, a second call
  right after it, with no turn added in between, returns the message that no eviction
  is needed, stores no slice, and leaves history and token counter as they are: the
  eviction removed at least \<^verbatim>\<open>tokensToFree\<close> tokens, so usage is at most the target
  of one half, below the threshold. The state before the first call is one in which the
  counter is the token sum of the history, as it is whenever the calls before have run
  one after the other.
\<close>

theorem C8_eviction_idempotent:
  assumes inv: "york_inv st"
    and first: "performContextEviction env st = (Inr (CutComplete n orig cmp), st1)"
  shows "performContextEviction env2 st1 = (Inr NoEvictionNeeded, st1)
       \<and> storedSlices (snd (performContextEviction env2 st1)) = storedSlices st1
       \<and> conversationHistory (snd (performContextEviction env2 st1)) = conversationHistory st1
       \<and> contextTokens (snd (performContextEviction env2 st1)) = contextTokens st1
       \<and> orig \<ge> tokensToFree (evaluateEviction st)
       \<and> real_of_int (contextTokens st1) / real_of_int (maxContextTokens st1) \<le> TARGET_AFTER_EVICTION
       \<and> york_inv st1"
  using eviction_then_quiet [OF inv first] .

lemma two_turns_evict:
  "performContextEviction toy_evict_env two_turns = (Inr (CutComplete 1 2000 2), one_turn_left)"
proof -
  have u: "\<not> real_of_int 4000 / real_of_int 4096 < EVICTION_THRESHOLD"
    using usage_below_threshold[of 4000] by (simp add: MAX_CONTEXT_TOKENS_def)
  have f: "\<lfloor>real_of_int 4000 - real_of_int 4096 * TARGET_AFTER_EVICTION\<rfloor> = 1952"
    using tokens_to_free[of 4000] by (simp add: MAX_CONTEXT_TOKENS_def)
  have d: "evaluateEviction two_turns =
     \<lparr> shouldEvict = True, tokensToFree = 1952, messagesToSummarize = 1, priority = p_critical \<rparr>"
    using u f by (simp add: evaluateEviction_def two_turns_def Let_def) 
  show ?thesis
    unfolding performContextEviction_def d
    by (simp add: two_turns_def one_turn_left_def toy_evict_env_def estimateTokens_def Let_def)
qed

theorem C8_eviction_idempotent_witness:
  "york_inv two_turns
   \<and> performContextEviction toy_evict_env two_turns = (Inr (CutComplete 1 2000 2), one_turn_left)
   \<and> performContextEviction toy_evict_env one_turn_left = (Inr NoEvictionNeeded, one_turn_left)
   \<and> length (storedSlices one_turn_left) = 1"
proof -
  have inv: "york_inv two_turns"
    by (simp add: york_inv_def two_turns_def MAX_CONTEXT_TOKENS_def)
  from C8_eviction_idempotent [OF inv two_turns_evict, of toy_evict_env] inv two_turns_evict
  show ?thesis by (simp add: one_turn_left_def)
qed

section \<open>Properties of the scheduler loop\<close>

lemma showNat_0: "showNat 0 = ''0''"
  by simp

lemma showNat_1: "showNat 1 = ''1''"
  by simp

lemma node_name_0: "node_name 0 = ''node_0''"
  by (simp add: node_name_def showNat_0 del: showNat.simps)

lemma node_name_1: "node_name (Suc 0) = ''node_1''"
  using showNat_1 by (simp add: node_name_def del: showNat.simps)

lemma hello_dag:
  "dag hello_plan =
     \<lparr> nodes = [(''node_0'', \<lparr> node_id = ''node_0'', taskId = [], satelliteId = ''edison'',
                              status = Ready, dependencies = [], dependents = [], result = None \<rparr>)],
       rootNodes = [''node_0''], leafNodes = [''node_0''] \<rparr>"
  by (simp add: hello_plan_def buildDAG_def mark_roots_def node_name_0 del: showNat.simps)

lemma cycle_built: "buildDAG cycle_tasks = cycle_dag"
  by (simp add: cycle_tasks_def cycle_dag_def buildDAG_def mark_roots_def node_name_0 node_name_1
      update_node_def del: showNat.simps)


lemma hello_not_complete: "\<not> isDAGComplete (dag hello_plan)"
  by (simp add: hello_dag isDAGComplete_def)

lemma hello_ready: "getReadyTasks (dag hello_plan) = ([''node_0''], dag hello_plan)"
  by (simp add: hello_dag getReadyTasks_def)

lemma hello_no_task:
  "dispatch_batch (tasks hello_plan) [''node_0'']
     \<lparr> bs_dag = dag hello_plan, bs_started = [], bs_log = [], bs_error = None \<rparr>
   = \<lparr> bs_dag = dag hello_plan, bs_started = [], bs_log = [], bs_error = None \<rparr>"
  by (simp add: hello_dag find_task_def) (simp add: hello_plan_def)

lemma hello_spins:
  "executePlan_fuel n exec (tasks hello_plan) w (dag hello_plan) [] []
   = \<lparr> exit = OutOfFuel, run_results = [], run_dag = dag hello_plan, run_log = [], run_world = w \<rparr>"
proof (induction n)
  case 0
  show ?case by simp
next
  case (Suc n)
  show ?case
    by (simp add: hello_not_complete hello_ready hello_no_task Suc.IH Let_def
        del: dispatch_batch.simps)
qed

lemma getReadyTasks_loop_blocked:
  "\<forall>k \<in> set ks. \<forall>node. map_of (nodes g) k = Some node \<longrightarrow>
       status node = Pending \<and> \<not> allDepsComplete g node \<Longrightarrow>
   getReadyTasks_loop ks g ready = (ready, g)"
  by (induction ks) (auto split: option.splits)

lemma getReadyTasks_blocked:
  assumes "all_blocked g"
  shows "getReadyTasks g = ([], g)"
  unfolding getReadyTasks_def
proof (rule getReadyTasks_loop_blocked, intro ballI allI impI)
  fix k node assume "map_of (nodes g) k = Some node"
  then have "(k, node) \<in> set (nodes g)" by (rule map_of_SomeD)
  with assms show "status node = Pending \<and> \<not> allDepsComplete g node"
    unfolding all_blocked_def list_all_iff by fastforce
qed

lemma blocked_not_complete:
  assumes "all_blocked g" and "nodes g \<noteq> []"
  shows "\<not> isDAGComplete g"
proof -
  from assms(2) obtain p ps where "nodes g = p # ps" by (cases "nodes g") auto
  with assms(1) show ?thesis by (simp add: all_blocked_def isDAGComplete_def)
qed

lemma blocked_deadlock:
  assumes "all_blocked g" and "nodes g \<noteq> []"
  shows "executePlan_fuel (Suc n) exec ts w g rs lg
         = \<lparr> exit = Deadlock, run_results = rs, run_dag = g, run_log = lg, run_world = w \<rparr>"
  by (simp add: blocked_not_complete[OF assms] getReadyTasks_blocked[OF assms(1)])

lemma cycle_dag_blocked: "all_blocked cycle_dag"
  by (simp add: all_blocked_def cycle_dag_def allDepsComplete_def dep_completed_def)

lemma update_node_keys: "map fst (nodes (update_node g k f)) = map fst (nodes g)"
  by (simp add: update_node_def comp_def)

lemma map_of_update_aux:
  "map_of (map (\<lambda>p. if fst p = k then (fst p, f (snd p)) else p) xs) k' =
     (if k' = k then map_option f (map_of xs k) else map_of xs k')"
  by (induction xs) auto

lemma map_of_update_node:
  "map_of (nodes (update_node g k f)) k' =
     (if k' = k then map_option f (map_of (nodes g) k) else map_of (nodes g) k')"
  by (simp add: update_node_def map_of_update_aux)

lemma status_of_update_node:
  "status_of (update_node g k f) k' =
     (if k' = k then map_option (\<lambda>n. status (f n)) (map_of (nodes g) k) else status_of g k')"
  by (simp add: status_of_def map_of_update_node option.map_comp comp_def)

lemma dep_completed_status: "dep_completed g d \<longleftrightarrow> status_of g d = Some Completed"
  by (auto simp: dep_completed_def status_of_def split: option.splits)

lemma allDepsComplete_mono:
  assumes "\<And>d. dep_completed g d \<Longrightarrow> dep_completed g' d"
    and "dependencies n' = dependencies n" and "allDepsComplete g n"
  shows "allDepsComplete g' n'"
  using assms by (auto simp: allDepsComplete_def list_all_iff)

lemma ready_inv_update:
  assumes inv: "ready_inv g"
    and deps: "\<And>n. dependencies (f n) = dependencies n"
    and mono: "\<And>n. map_of (nodes g) k = Some n \<Longrightarrow> status n = Completed \<Longrightarrow> status (f n) = Completed"
    and rdy: "\<And>n. map_of (nodes g) k = Some n \<Longrightarrow> status (f n) = Ready \<Longrightarrow> allDepsComplete g n"
  shows "ready_inv (update_node g k f)"
proof -
  let ?g' = "update_node g k f"
  from inv have dist: "distinct (map fst (nodes g))"
    and rd: "\<And>p. p \<in> set (nodes g) \<Longrightarrow> status (snd p) = Ready \<Longrightarrow> allDepsComplete g (snd p)"
    by (auto simp: ready_inv_def list_all_iff)
  have cm: "dep_completed ?g' d" if "dep_completed g d" for d
  proof (cases "d = k")
    case True
    from that obtain n where n: "map_of (nodes g) d = Some n" "status n = Completed"
      by (auto simp: dep_completed_def split: option.splits)
    with True mono[of n] show ?thesis
      by (simp add: dep_completed_def map_of_update_node)
  next
    case False
    with that show ?thesis by (simp add: dep_completed_def map_of_update_node)
  qed
  have "status (snd q) = Ready \<longrightarrow> allDepsComplete ?g' (snd q)" if q: "q \<in> set (nodes ?g')" for q
  proof
    assume r: "status (snd q) = Ready"
    from q have "q \<in> (\<lambda>p. if fst p = k then (fst p, f (snd p)) else p) ` set (nodes g)"
      by (simp add: update_node_def)
    then obtain p where p: "p \<in> set (nodes g)"
      and qp: "q = (if fst p = k then (fst p, f (snd p)) else p)"
      by (rule imageE)
    show "allDepsComplete ?g' (snd q)"
    proof (cases "fst p = k")
      case True
      from dist p have "map_of (nodes g) (fst p) = Some (snd p)"
        by (intro map_of_is_SomeI) simp_all
      with True have look: "map_of (nodes g) k = Some (snd p)" by simp
      from qp True r have "status (f (snd p)) = Ready" by simp
      from rdy[OF look this] have "allDepsComplete g (snd p)" .
      then have "allDepsComplete ?g' (f (snd p))"
        using cm deps by (auto simp: allDepsComplete_def list_all_iff)
      with qp True show ?thesis by simp
    next
      case False
      with qp r have "status (snd p) = Ready" by simp
      from rd[OF p this] have "allDepsComplete g (snd p)" .
      then have "allDepsComplete ?g' (snd p)"
        using cm by (auto simp: allDepsComplete_def list_all_iff)
      with qp False show ?thesis by simp
    qed
  qed
  with dist show ?thesis by (simp add: ready_inv_def list_all_iff update_node_keys)
qed

lemma ready_inv_promote:
  assumes "ready_inv g" and "map_of (nodes g) k = Some node"
    and "status node = Pending" and "allDepsComplete g node"
  shows "ready_inv (update_node g k (\<lambda>n. n\<lparr> status := Ready \<rparr>))"
  using assms by (intro ready_inv_update) auto

lemma ready_inv_running:
  assumes "ready_inv g" and "status_of g k \<noteq> Some Completed"
  shows "ready_inv (update_node g k (\<lambda>n. n\<lparr> status := Running \<rparr>))"
  using assms by (intro ready_inv_update) (auto simp: status_of_def)

lemma ready_inv_finish:
  assumes "ready_inv g" and "status_of g k \<noteq> Some Completed" and "s \<noteq> Ready"
  shows "ready_inv (update_node g k (\<lambda>n. n\<lparr> status := s, result := r \<rparr>))"
  using assms by (intro ready_inv_update) (auto simp: status_of_def)

lemma only_promotes_refl: "only_promotes g g"
  by (simp add: only_promotes_def)

lemma only_promotes_trans:
  "only_promotes g g' \<Longrightarrow> only_promotes g' g'' \<Longrightarrow> only_promotes g g''"
  unfolding only_promotes_def by metis

lemma only_promotes_step:
  assumes "map_of (nodes g) k = Some node" and "status node = Pending"
  shows "only_promotes g (update_node g k (\<lambda>n. n\<lparr> status := Ready \<rparr>))"
  unfolding only_promotes_def
proof
  fix j
  show "status_of (update_node g k (\<lambda>n. n\<lparr> status := Ready \<rparr>)) j = status_of g j
      \<or> (status_of g j = Some Pending
          \<and> status_of (update_node g k (\<lambda>n. n\<lparr> status := Ready \<rparr>)) j = Some Ready)"
  proof (cases "j = k")
    case True
    with assms show ?thesis by (simp add: status_of_update_node) (simp add: status_of_def)
  next
    case False
    then show ?thesis by (simp add: status_of_update_node)
  qed
qed

lemma only_promotes_keeps:
  "only_promotes g g' \<Longrightarrow> status_of g k = Some s \<Longrightarrow> s \<noteq> Pending \<Longrightarrow> status_of g' k = Some s"
  unfolding only_promotes_def by (metis option.inject)

lemma getReadyTasks_loop_inv:
  "ready_inv g \<Longrightarrow> getReadyTasks_loop ks g ready = (rs, g') \<Longrightarrow>
   ready_inv g' \<and> only_promotes g g'
   \<and> (\<exists>ys. rs = ready @ ys \<and> set ys \<subseteq> set ks \<and> (distinct ks \<longrightarrow> distinct ys)
          \<and> (\<forall>k \<in> set ys. status_of g' k = Some Ready))"
proof (induction ks arbitrary: g ready)
  case Nil
  then show ?case by (simp add: only_promotes_refl)
next
  case (Cons k ks)
  show ?case
  proof (cases "map_of (nodes g) k")
    case None
    with Cons.prems have run: "getReadyTasks_loop ks g ready = (rs, g')" by simp
    from Cons.IH[OF Cons.prems(1) run] show ?thesis by auto
  next
    case (Some node)
    show ?thesis
    proof (cases "status node = Ready")
      case True
      with Some Cons.prems have run: "getReadyTasks_loop ks g (ready @ [k]) = (rs, g')" by simp
      from Cons.IH[OF Cons.prems(1) run] obtain ys where
        ih: "ready_inv g'" "only_promotes g g'" "rs = (ready @ [k]) @ ys" "set ys \<subseteq> set ks"
          "distinct ks \<longrightarrow> distinct ys" "\<forall>k \<in> set ys. status_of g' k = Some Ready"
        by blast
      from Some True have "status_of g k = Some Ready" by (simp add: status_of_def)
      with ih(2) have "status_of g' k = Some Ready" by (rule only_promotes_keeps) simp
      with ih have "rs = ready @ (k # ys) \<and> set (k # ys) \<subseteq> set (k # ks)
          \<and> (distinct (k # ks) \<longrightarrow> distinct (k # ys))
          \<and> (\<forall>j \<in> set (k # ys). status_of g' j = Some Ready)" by auto
      with ih(1,2) show ?thesis by blast
    next
      case False
      show ?thesis
      proof (cases "status node = Pending \<and> allDepsComplete g node")
        case True
        let ?g1 = "update_node g k (\<lambda>n. n\<lparr> status := Ready \<rparr>)"
        from Some False True Cons.prems have run: "getReadyTasks_loop ks ?g1 (ready @ [k]) = (rs, g')"
          by simp
        from True Some Cons.prems(1) have inv1: "ready_inv ?g1" by (intro ready_inv_promote) auto
        from True Some have p1: "only_promotes g ?g1" by (intro only_promotes_step) auto
        from Cons.IH[OF inv1 run] obtain ys where
          ih: "ready_inv g'" "only_promotes ?g1 g'" "rs = (ready @ [k]) @ ys" "set ys \<subseteq> set ks"
            "distinct ks \<longrightarrow> distinct ys" "\<forall>k \<in> set ys. status_of g' k = Some Ready"
          by blast
        from Some have "status_of ?g1 k = Some Ready" by (simp add: status_of_update_node)
        with ih(2) have "status_of g' k = Some Ready" by (rule only_promotes_keeps) simp
        with ih have "rs = ready @ (k # ys) \<and> set (k # ys) \<subseteq> set (k # ks)
          \<and> (distinct (k # ks) \<longrightarrow> distinct (k # ys))
          \<and> (\<forall>j \<in> set (k # ys). status_of g' j = Some Ready)" by auto
        moreover from p1 ih(2) have "only_promotes g g'" by (rule only_promotes_trans)
        ultimately show ?thesis using ih(1) by blast
      next
        case nb: False
        with Some False Cons.prems have run: "getReadyTasks_loop ks g ready = (rs, g')" by auto
        from Cons.IH[OF Cons.prems(1) run] show ?thesis by auto
      qed
    qed
  qed
qed

lemma getReadyTasks_inv:
  assumes "ready_inv g" and "getReadyTasks g = (rs, g')"
  shows "ready_inv g' \<and> only_promotes g g' \<and> distinct rs
       \<and> (\<forall>k \<in> set rs. status_of g' k = Some Ready)"
proof -
  from assms(1) have "distinct (map fst (nodes g))" by (simp add: ready_inv_def)
  with getReadyTasks_loop_inv[OF assms(1) assms(2)[unfolded getReadyTasks_def]]
  show ?thesis by auto
qed

lemma promote_dependents_inv:
  "ready_inv g \<Longrightarrow> ready_inv (promote_dependents ds g) \<and> only_promotes g (promote_dependents ds g)"
proof (induction ds arbitrary: g)
  case Nil
  then show ?case by (simp add: only_promotes_refl)
next
  case (Cons d ds)
  let ?g1 = "case map_of (nodes g) d of None \<Rightarrow> g
        | Some depNode \<Rightarrow>
            if status depNode = Pending \<and> allDepsComplete g depNode
            then update_node g d (\<lambda>n. n\<lparr> status := Ready \<rparr>) else g"
  have step: "ready_inv ?g1 \<and> only_promotes g ?g1"
  proof (cases "map_of (nodes g) d")
    case None
    with Cons.prems show ?thesis by (simp add: only_promotes_refl)
  next
    case (Some depNode)
    show ?thesis
    proof (cases "status depNode = Pending \<and> allDepsComplete g depNode")
      case True
      with Some Cons.prems have "ready_inv (update_node g d (\<lambda>n. n\<lparr> status := Ready \<rparr>))"
        by (intro ready_inv_promote) auto
      moreover from True Some have "only_promotes g (update_node g d (\<lambda>n. n\<lparr> status := Ready \<rparr>))"
        by (intro only_promotes_step) auto
      ultimately show ?thesis using Some True by simp
    next
      case False
      with Some Cons.prems show ?thesis by (auto simp: only_promotes_refl)
    qed
  qed
  from Cons.IH[of ?g1] step have "ready_inv (promote_dependents ds ?g1)"
    and "only_promotes ?g1 (promote_dependents ds ?g1)" by auto
  with step show ?case by (auto intro: only_promotes_trans)
qed

lemma markTaskComplete_inv:
  assumes inv: "ready_inv g" and run: "status_of g k = Some Running"
  shows "ready_inv (markTaskComplete g k r)
       \<and> status_of (markTaskComplete g k r) k = Some (if res_success r then Completed else Failed)
       \<and> (\<forall>j. j \<noteq> k \<longrightarrow> status_of (markTaskComplete g k r) j = status_of g j
               \<or> (status_of g j = Some Pending \<and> status_of (markTaskComplete g k r) j = Some Ready))"
proof -
  from run obtain node where node: "map_of (nodes g) k = Some node"
    by (auto simp: status_of_def)
  let ?s = "if res_success r then Completed else Failed"
  let ?g1 = "update_node g k (\<lambda>n. n\<lparr> status := ?s, result := Some r \<rparr>)"
  from run have nc: "status_of g k \<noteq> Some Completed" by simp
  have ns: "?s \<noteq> Ready" by simp
  have inv1: "ready_inv ?g1" using inv nc ns by (rule ready_inv_finish)
  have s1k: "status_of ?g1 k = Some ?s" using node by (simp add: status_of_update_node)
  have s1j: "status_of ?g1 j = status_of g j" if "j \<noteq> k" for j
    using that by (simp add: status_of_update_node)
  show ?thesis
  proof (cases "res_success r")
    case False
    then have "markTaskComplete g k r = ?g1" using node by (simp add: markTaskComplete_def Let_def)
    with inv1 s1k s1j show ?thesis by simp
  next
    case True
    then have eq: "markTaskComplete g k r = promote_dependents (dependents node) ?g1"
      using node by (simp add: markTaskComplete_def Let_def)
    from promote_dependents_inv[OF inv1, of "dependents node"]
    have inv2: "ready_inv (promote_dependents (dependents node) ?g1)"
      and op: "only_promotes ?g1 (promote_dependents (dependents node) ?g1)" by simp_all
    from s1k True have "status_of ?g1 k = Some Completed" by simp
    with op have k2: "status_of (promote_dependents (dependents node) ?g1) k = Some Completed"
      by (rule only_promotes_keeps) simp
    have "\<forall>j. j \<noteq> k \<longrightarrow> status_of (promote_dependents (dependents node) ?g1) j = status_of g j
               \<or> (status_of g j = Some Pending
                   \<and> status_of (promote_dependents (dependents node) ?g1) j = Some Ready)"
      using op s1j unfolding only_promotes_def by metis
    with inv2 k2 True show ?thesis unfolding eq by simp
  qed
qed


lemma dispatch_batch_inv:
  "ready_inv (bs_dag b) \<Longrightarrow> list_all dispatch_ok (bs_log b) \<Longrightarrow> distinct rs \<Longrightarrow>
   \<forall>k \<in> set rs. status_of (bs_dag b) k = Some Ready \<Longrightarrow>
   \<forall>k \<in> set (map fst (bs_started b)). status_of (bs_dag b) k = Some Running \<Longrightarrow>
   distinct (map fst (bs_started b)) \<Longrightarrow> set (map fst (bs_started b)) \<inter> set rs = {} \<Longrightarrow>
   ready_inv (bs_dag (dispatch_batch ts rs b))
   \<and> list_all dispatch_ok (bs_log (dispatch_batch ts rs b))
   \<and> (\<forall>k \<in> set (map fst (bs_started (dispatch_batch ts rs b))).
         status_of (bs_dag (dispatch_batch ts rs b)) k = Some Running)
   \<and> distinct (map fst (bs_started (dispatch_batch ts rs b)))"
proof (induction rs arbitrary: b)
  case Nil
  then show ?case by simp
next
  case (Cons k rs)
  let ?g = "bs_dag b"
  from Cons.prems(4) have sk: "status_of ?g k = Some Ready" by simp
  then obtain node where node: "map_of (nodes ?g) k = Some node" and rdy: "status node = Ready"
    by (auto simp: status_of_def)
  from node have "(k, node) \<in> set (nodes ?g)" by (rule map_of_SomeD)
  with Cons.prems(1) rdy have adc: "allDepsComplete ?g node"
    unfolding ready_inv_def list_all_iff by fastforce
  from Cons.prems(3) have krs: "k \<notin> set rs" and drs: "distinct rs" by simp_all
  from Cons.prems(7) have kst: "k \<notin> set (map fst (bs_started b))"
    and disj: "set (map fst (bs_started b)) \<inter> set rs = {}" by auto
  show ?case
  proof (cases "find_task ts node k")
    case None
    with node have step: "dispatch_batch ts (k # rs) b = dispatch_batch ts rs b" by simp
    from Cons.prems(4) have "\<forall>j \<in> set rs. status_of (bs_dag b) j = Some Ready" by simp
    from Cons.IH[OF Cons.prems(1,2) drs this Cons.prems(5,6) disj] show ?thesis
      unfolding step .
  next
    case (Some task)
    let ?g1 = "update_node ?g k (\<lambda>n. n\<lparr> status := Running \<rparr>)"
    let ?b1 = "b\<lparr> bs_dag := ?g1, bs_started := bs_started b @ [(k, task)],
                   bs_log := bs_log b @ [(k, ?g)] \<rparr>"
    from Some node have step: "dispatch_batch ts (k # rs) b = dispatch_batch ts rs ?b1" by simp
    from sk have "status_of ?g k \<noteq> Some Completed" by simp
    with Cons.prems(1) have "ready_inv ?g1" by (rule ready_inv_running)
    then have a1: "ready_inv (bs_dag ?b1)" by simp
    from node adc have "dispatch_ok (k, ?g)" by (simp add: dispatch_ok_def)
    with Cons.prems(2) have a2: "list_all dispatch_ok (bs_log ?b1)" by simp
    have a4: "\<forall>j \<in> set rs. status_of (bs_dag ?b1) j = Some Ready"
      using Cons.prems(4) krs by (auto simp: status_of_update_node)
    have a5: "\<forall>j \<in> set (map fst (bs_started ?b1)). status_of (bs_dag ?b1) j = Some Running"
      using Cons.prems(5) kst node by (auto simp: status_of_update_node)
    have a6: "distinct (map fst (bs_started ?b1))" using Cons.prems(6) kst by simp
    have a7: "set (map fst (bs_started ?b1)) \<inter> set rs = {}" using disj krs by auto
    from Cons.IH[OF a1 a2 drs a4 a5 a6 a7] show ?thesis unfolding step .
  qed
qed

lemma complete_batch_inv:
  "ready_inv g \<Longrightarrow> distinct (map fst started) \<Longrightarrow>
   \<forall>k \<in> set (map fst started). status_of g k = Some Running \<Longrightarrow>
   ready_inv (fst (snd (complete_batch exec w g started acc)))"
proof (induction started arbitrary: g w acc)
  case Nil
  then show ?case by simp
next
  case (Cons p started)
  obtain k task where p: "p = (k, task)" by (cases p)
  obtain o' w' where ex: "exec w task = (o', w')" by (cases "exec w task")
  show ?case
  proof (cases o')
    case (Inl e)
    with p ex Cons.prems(1) show ?thesis by simp
  next
    case (Inr r)
    let ?g1 = "markTaskComplete g k r"
    from Cons.prems(3) p have run: "status_of g k = Some Running" by simp
    note m = markTaskComplete_inv[OF Cons.prems(1) run, of r]
    from m have inv1: "ready_inv ?g1" by simp
    from Cons.prems(2) p have d: "distinct (map fst started)" and kn: "k \<notin> set (map fst started)"
      by simp_all
    have "\<forall>j \<in> set (map fst started). status_of ?g1 j = Some Running"
    proof
      fix j assume j: "j \<in> set (map fst started)"
      with kn have "j \<noteq> k" by auto
      moreover from j Cons.prems(3) have gj: "status_of g j = Some Running" by auto
      ultimately have "status_of ?g1 j = status_of g j
               \<or> (status_of g j = Some Pending \<and> status_of ?g1 j = Some Ready)"
        using m by blast
      with gj show "status_of ?g1 j = Some Running" by auto
    qed
    from Cons.IH[OF inv1 d this] p ex Inr show ?thesis by simp
  qed
qed

lemma executePlan_fuel_inv:
  "ready_inv g \<Longrightarrow> list_all dispatch_ok lg \<Longrightarrow>
   ready_inv (run_dag (executePlan_fuel n exec ts w g rs lg))
   \<and> list_all dispatch_ok (run_log (executePlan_fuel n exec ts w g rs lg))
   \<and> (exit (executePlan_fuel n exec ts w g rs lg) = Complete \<longrightarrow>
        isDAGComplete (run_dag (executePlan_fuel n exec ts w g rs lg)))"
proof (induction n arbitrary: w g rs lg)
  case 0
  then show ?case by simp
next
  case (Suc n)
  show ?case
  proof (cases "isDAGComplete g")
    case True
    with Suc.prems show ?thesis by simp
  next
    case False
    obtain ready g1 where gr: "getReadyTasks g = (ready, g1)" by (cases "getReadyTasks g")
    from getReadyTasks_inv[OF Suc.prems(1) gr]
    have inv1: "ready_inv g1" and dr: "distinct ready"
      and allr: "\<forall>k \<in> set ready. status_of g1 k = Some Ready" by simp_all
    show ?thesis
    proof (cases "ready = []")
      case True
      with False gr inv1 Suc.prems(2) show ?thesis by simp
    next
      case ne: False
      let ?ini = "\<lparr> bs_dag = g1, bs_started = [], bs_log = lg, bs_error = None \<rparr>"
      let ?fin = "dispatch_batch ts ready ?ini"
      have "ready_inv (bs_dag ?ini)" "list_all dispatch_ok (bs_log ?ini)"
        "\<forall>k \<in> set ready. status_of (bs_dag ?ini) k = Some Ready"
        "\<forall>k \<in> set (map fst (bs_started ?ini)). status_of (bs_dag ?ini) k = Some Running"
        "distinct (map fst (bs_started ?ini))" "set (map fst (bs_started ?ini)) \<inter> set ready = {}"
        using inv1 Suc.prems(2) allr by simp_all
      from dispatch_batch_inv[OF this(1,2) dr this(3,4,5,6), of ts]
      have b1: "ready_inv (bs_dag ?fin)" and b2: "list_all dispatch_ok (bs_log ?fin)"
        and b3: "\<forall>k \<in> set (map fst (bs_started ?fin)). status_of (bs_dag ?fin) k = Some Running"
        and b4: "distinct (map fst (bs_started ?fin))" by simp_all
      have unf: "executePlan_fuel (Suc n) exec ts w g rs lg =
         (case bs_error ?fin of
            Some e \<Rightarrow> \<lparr> exit = Threw e, run_results = rs, run_dag = bs_dag ?fin,
                         run_log = bs_log ?fin, run_world = w \<rparr>
          | None \<Rightarrow>
              (case complete_batch exec w (bs_dag ?fin) (bs_started ?fin) [] of
                 (Inl e, g3, w3) \<Rightarrow> \<lparr> exit = Threw e, run_results = rs, run_dag = g3,
                                      run_log = bs_log ?fin, run_world = w3 \<rparr>
               | (Inr batchResults, g3, w3) \<Rightarrow>
                   executePlan_fuel n exec ts w3 g3 (rs @ batchResults) (bs_log ?fin)))"
        using False gr ne by (simp add: Let_def del: dispatch_batch.simps)
      show ?thesis
      proof (cases "bs_error ?fin")
        case (Some e)
        with b1 b2 show ?thesis unfolding unf by simp
      next
        case None
        obtain o3 g3 w3 where cb: "complete_batch exec w (bs_dag ?fin) (bs_started ?fin) [] = (o3, g3, w3)"
          by (cases "complete_batch exec w (bs_dag ?fin) (bs_started ?fin) []") auto
        from complete_batch_inv[OF b1 b4 b3, of exec w "[]"] cb have inv3: "ready_inv g3" by simp
        show ?thesis
        proof (cases o3)
          case (Inl e)
          with None cb inv3 b2 show ?thesis unfolding unf by simp
        next
          case (Inr batchResults)
          from Suc.IH[OF inv3 b2, of w3 "rs @ batchResults"] None cb Inr
          show ?thesis unfolding unf by simp
        qed
      qed
    qed
  qed
qed

lemma map_set_keys:
  "map fst (map_set m k v) = (if k \<in> fst ` set m then map fst m else map fst m @ [k])"
proof (induction m)
  case Nil
  show ?case by simp
next
  case (Cons p m)
  obtain a b where p: "p = (a, b)" by (cases p)
  show ?case
  proof (cases "a = k")
    case True
    with p show ?thesis by simp
  next
    case False
    have "(k \<in> fst ` set (p # m)) = (k \<in> fst ` set m)" using False p by auto
    with False p Cons.IH show ?thesis by simp
  qed
qed

lemma map_set_distinct: "distinct (map fst m) \<Longrightarrow> distinct (map fst (map_set m k v))"
  by (simp add: map_set_keys)

lemma map_set_member: "p \<in> set (map_set m k v) \<Longrightarrow> p \<in> set m \<or> p = (k, v)"
  by (induction m) (auto split: if_splits)

lemma create_nodes_fresh:
  "distinct (map fst ns) \<Longrightarrow> \<forall>p \<in> set ns. status (snd p) = Pending \<Longrightarrow>
   distinct (map fst (fst (create_nodes i ts (ns, d))))
   \<and> (\<forall>p \<in> set (fst (create_nodes i ts (ns, d))). status (snd p) = Pending)"
proof (induction ts arbitrary: i ns d)
  case Nil
  then show ?case by simp
next
  case (Cons t ts)
  let ?v = "\<lparr> node_id = node_name i, taskId = [], satelliteId = pt_satellite t,
            status = Pending, dependencies = [], dependents = [], result = None \<rparr>"
  have 1: "distinct (map fst (map_set ns (node_name i) ?v))"
    using Cons.prems(1) by (rule map_set_distinct)
  have 2: "\<forall>p \<in> set (map_set ns (node_name i) ?v). status (snd p) = Pending"
    using Cons.prems(2) by (auto dest!: map_set_member)
  from Cons.IH[OF 1 2] show ?case by simp
qed

lemma update_node_pending:
  assumes "\<forall>p \<in> set (nodes g). status (snd p) = Pending" and "\<And>n. status (f n) = status n"
  shows "\<forall>p \<in> set (nodes (update_node g k f)). status (snd p) = Pending"
  using assms by (auto simp: update_node_def)

lemma link_deps_fresh:
  "distinct (map fst (nodes g)) \<Longrightarrow> \<forall>p \<in> set (nodes g). status (snd p) = Pending \<Longrightarrow>
   distinct (map fst (nodes (link_deps d k ds g)))
   \<and> (\<forall>p \<in> set (nodes (link_deps d k ds g)). status (snd p) = Pending)"
proof (induction ds arbitrary: g)
  case Nil
  then show ?case by simp
next
  case (Cons x ds)
  let ?g1 = "case map_of d x of None \<Rightarrow> g
        | Some depNodeId \<Rightarrow>
            if depNodeId = [] then g
            else update_node
                   (update_node g k (\<lambda>n. n\<lparr> dependencies := dependencies n @ [depNodeId] \<rparr>))
                   depNodeId (\<lambda>n. n\<lparr> dependents := dependents n @ [k] \<rparr>)"
  have 1: "distinct (map fst (nodes ?g1))"
    using Cons.prems(1) by (auto split: option.splits simp: update_node_keys)
  have 2: "\<forall>p \<in> set (nodes ?g1). status (snd p) = Pending"
  proof (cases "map_of d x")
    case None
    with Cons.prems(2) show ?thesis by simp
  next
    case (Some depNodeId)
    have "\<forall>p \<in> set (nodes (update_node
                   (update_node g k (\<lambda>n. n\<lparr> dependencies := dependencies n @ [depNodeId] \<rparr>))
                   depNodeId (\<lambda>n. n\<lparr> dependents := dependents n @ [k] \<rparr>))). status (snd p) = Pending"
      by (intro update_node_pending Cons.prems(2)) simp_all
    with Some Cons.prems(2) show ?thesis by simp
  qed
  from Cons.IH[OF 1 2] show ?case by simp
qed

lemma link_tasks_fresh:
  "distinct (map fst (nodes g)) \<Longrightarrow> \<forall>p \<in> set (nodes g). status (snd p) = Pending \<Longrightarrow>
   distinct (map fst (nodes (link_tasks d i ts g)))
   \<and> (\<forall>p \<in> set (nodes (link_tasks d i ts g)). status (snd p) = Pending)"
proof (induction ts arbitrary: i g)
  case Nil
  then show ?case by simp
next
  case (Cons t ts)
  from link_deps_fresh[OF Cons.prems, of d "node_name i" "pt_dependencies t"]
  have "distinct (map fst (nodes (link_deps d (node_name i) (pt_dependencies t) g)))"
    and "\<forall>p \<in> set (nodes (link_deps d (node_name i) (pt_dependencies t) g)). status (snd p) = Pending"
    by simp_all
  from Cons.IH[OF this] show ?case by simp
qed

lemma mark_roots_ready:
  assumes "distinct (map fst (nodes g))" and "\<forall>p \<in> set (nodes g). status (snd p) = Pending"
  shows "distinct (map fst (nodes (mark_roots g)))
       \<and> (\<forall>p \<in> set (nodes (mark_roots g)).
             (status (snd p) = Ready \<longleftrightarrow> dependencies (snd p) = [])
             \<and> (status (snd p) = Ready \<or> status (snd p) = Pending))"
proof -
  have "map fst (nodes (mark_roots g)) = map fst (nodes g)"
    by (simp add: mark_roots_def comp_def if_distrib cong: if_cong)
  with assms(1) have "distinct (map fst (nodes (mark_roots g)))" by simp
  moreover have "\<forall>p \<in> set (nodes (mark_roots g)).
             (status (snd p) = Ready \<longleftrightarrow> dependencies (snd p) = [])
             \<and> (status (snd p) = Ready \<or> status (snd p) = Pending)"
    using assms(2) by (auto simp: mark_roots_def)
  ultimately show ?thesis by blast
qed

lemma buildDAG_initial:
  "distinct (map fst (nodes (buildDAG pts)))
   \<and> (\<forall>p \<in> set (nodes (buildDAG pts)).
         (status (snd p) = Ready \<longleftrightarrow> dependencies (snd p) = [])
         \<and> (status (snd p) = Ready \<or> status (snd p) = Pending))"
proof -
  obtain ns d where cn: "create_nodes 0 pts ([], []) = (ns, d)"
    by (cases "create_nodes 0 pts ([], [])")
  from create_nodes_fresh[of "[]" 0 pts "[]"] cn
  have "distinct (map fst ns)" "\<forall>p \<in> set ns. status (snd p) = Pending" by simp_all
  then have "distinct (map fst (nodes \<lparr> nodes = ns, rootNodes = [], leafNodes = [] \<rparr>))"
    "\<forall>p \<in> set (nodes \<lparr> nodes = ns, rootNodes = [], leafNodes = [] \<rparr>). status (snd p) = Pending"
    by simp_all
  from link_tasks_fresh[OF this, of d 0 pts]
  have "distinct (map fst (nodes (link_tasks d 0 pts \<lparr> nodes = ns, rootNodes = [], leafNodes = [] \<rparr>)))"
    "\<forall>p \<in> set (nodes (link_tasks d 0 pts \<lparr> nodes = ns, rootNodes = [], leafNodes = [] \<rparr>)).
       status (snd p) = Pending" by simp_all
  from mark_roots_ready[OF this]
  have fin: "distinct (map fst (nodes (mark_roots
                (link_tasks d 0 pts \<lparr> nodes = ns, rootNodes = [], leafNodes = [] \<rparr>))))
       \<and> (\<forall>p \<in> set (nodes (mark_roots
                (link_tasks d 0 pts \<lparr> nodes = ns, rootNodes = [], leafNodes = [] \<rparr>))).
             (status (snd p) = Ready \<longleftrightarrow> dependencies (snd p) = [])
             \<and> (status (snd p) = Ready \<or> status (snd p) = Pending))" .
  have eq: "buildDAG pts = mark_roots (link_tasks d 0 pts \<lparr> nodes = ns, rootNodes = [], leafNodes = [] \<rparr>)"
    by (simp add: buildDAG_def cn)
  show ?thesis unfolding eq by (rule fin)
qed

lemma buildDAG_ready_inv: "ready_inv (buildDAG pts)"
  using buildDAG_initial[of pts]
  by (auto simp: ready_inv_def list_all_iff allDepsComplete_def)

lemma chain_dag:
  "dag chain_plan =
     \<lparr> nodes =
         [(''node_0'', \<lparr> node_id = ''node_0'', taskId = [], satelliteId = ''pythagoras'', status = Ready,
                        dependencies = [], dependents = [''node_1''], result = None \<rparr>),
          (''node_1'', \<lparr> node_id = ''node_1'', taskId = [], satelliteId = ''edison'', status = Pending,
                        dependencies = [''node_0''], dependents = [], result = None \<rparr>)],
       rootNodes = [''node_0''], leafNodes = [''node_1''] \<rparr>"
  by (simp add: chain_plan_def chain_tasks_def buildDAG_def mark_roots_def node_name_0 node_name_1
      update_node_def del: showNat.simps)

lemma chain_run:
  "exit (executePlan (Suc (Suc (Suc 0))) always_ok () chain_plan) = Complete
   \<and> map fst (run_log (executePlan (Suc (Suc (Suc 0))) always_ok () chain_plan)) = [''node_0'', ''node_1'']
   \<and> map res_taskId (run_results (executePlan (Suc (Suc (Suc 0))) always_ok () chain_plan))
       = [''task-1'', ''task-2'']"
  unfolding executePlan_def chain_dag
  by (simp add: chain_plan_def isDAGComplete_def getReadyTasks_def allDepsComplete_def
      dep_completed_def update_node_def find_task_def always_ok_def markTaskComplete_def Let_def)

text \<open>
  C2. In every state the scheduler loop reaches from a graph in which the ready nodes
  have their dependencies completed, as the graph of \<^verbatim>\<open>buildDAG\<close> is (there a node is
  ready exactly when it has no dependency), a node is dispatched only when all its
  dependencies are completed at that moment; \<^verbatim>\<open>getReadyTasks\<close> and
  \<^verbatim>\<open>markTaskComplete\<close> change no status except from pending to ready (and that of
  the marked node) and keep the ready nodes' dependencies completed; and
  \<^verbatim>\<open>isDAGComplete\<close> holds exactly when every node is completed or failed.
\<close>

theorem C2_dispatch_only_after_dependencies:
  assumes start: "ready_inv (dag plan)"
  shows "(\<forall>d \<in> set (run_log (executePlan n exec w plan)). dispatch_ok d)
       \<and> ready_inv (run_dag (executePlan n exec w plan))
       \<and> (exit (executePlan n exec w plan) = Complete \<longrightarrow>
            (\<forall>p \<in> set (nodes (run_dag (executePlan n exec w plan))).
               status (snd p) = Completed \<or> status (snd p) = Failed))
       \<and> ready_inv (buildDAG pts)
       \<and> (\<forall>p \<in> set (nodes (buildDAG pts)).
             (status (snd p) = Ready \<longleftrightarrow> dependencies (snd p) = [])
             \<and> (status (snd p) = Ready \<or> status (snd p) = Pending))
       \<and> (ready_inv g \<longrightarrow>
            ready_inv (snd (getReadyTasks g)) \<and> only_promotes g (snd (getReadyTasks g))
            \<and> (\<forall>k \<in> set (fst (getReadyTasks g)). status_of (snd (getReadyTasks g)) k = Some Ready))
       \<and> (ready_inv g \<and> status_of g k = Some Running \<longrightarrow>
            ready_inv (markTaskComplete g k r)
            \<and> (\<forall>j. j \<noteq> k \<longrightarrow> status_of (markTaskComplete g k r) j = status_of g j
                   \<or> (status_of g j = Some Pending \<and> status_of (markTaskComplete g k r) j = Some Ready)))
       \<and> (isDAGComplete g \<longleftrightarrow>
            (\<forall>p \<in> set (nodes g). status (snd p) = Completed \<or> status (snd p) = Failed))"
proof -
  have e: "list_all dispatch_ok []" by simp
  note run = executePlan_fuel_inv[OF start e, of n exec "tasks plan" w "[]", folded executePlan_def]
  have c: "isDAGComplete g' \<longleftrightarrow>
            (\<forall>p \<in> set (nodes g'). status (snd p) = Completed \<or> status (snd p) = Failed)" for g'
    by (simp add: isDAGComplete_def list_all_iff)
  have gr: "ready_inv (snd (getReadyTasks g)) \<and> only_promotes g (snd (getReadyTasks g))
            \<and> (\<forall>k \<in> set (fst (getReadyTasks g)). status_of (snd (getReadyTasks g)) k = Some Ready)"
    if "ready_inv g"
    using getReadyTasks_inv[OF that, of "fst (getReadyTasks g)" "snd (getReadyTasks g)"] by simp
  have mk: "ready_inv (markTaskComplete g k r)
            \<and> (\<forall>j. j \<noteq> k \<longrightarrow> status_of (markTaskComplete g k r) j = status_of g j
                   \<or> (status_of g j = Some Pending \<and> status_of (markTaskComplete g k r) j = Some Ready))"
    if "ready_inv g \<and> status_of g k = Some Running"
    using markTaskComplete_inv[of g k r] that by blast
  from run have r1: "\<forall>d \<in> set (run_log (executePlan n exec w plan)). dispatch_ok d"
    and r2: "ready_inv (run_dag (executePlan n exec w plan))"
    and r3: "exit (executePlan n exec w plan) = Complete \<longrightarrow>
            (\<forall>p \<in> set (nodes (run_dag (executePlan n exec w plan))).
               status (snd p) = Completed \<or> status (snd p) = Failed)"
    by (simp_all add: list_all_iff c)
  from r1 r2 r3 buildDAG_ready_inv[of pts] buildDAG_initial[of pts] gr mk c[of g]
  show ?thesis by blast
qed

theorem C2_dispatch_only_after_dependencies_witness:
  "ready_inv (dag chain_plan)
   \<and> list_all dispatch_ok (run_log (executePlan (Suc (Suc (Suc 0))) always_ok () chain_plan))
   \<and> map fst (run_log (executePlan (Suc (Suc (Suc 0))) always_ok () chain_plan)) = [''node_0'', ''node_1'']
   \<and> exit (executePlan (Suc (Suc (Suc 0))) always_ok () chain_plan) = Complete"
proof -
  have start: "ready_inv (dag chain_plan)"
    using buildDAG_ready_inv[of chain_tasks] by (simp add: chain_plan_def)
  from C2_dispatch_only_after_dependencies [OF start, of "Suc (Suc (Suc 0))" always_ok "()"]
    start chain_run
  show ?thesis unfolding list_all_iff by blast
qed

lemma stuck_node:
  assumes "stuck_set g C" and "k \<in> set C"
  obtains node d where "map_of (nodes g) k = Some node" "status node = Pending"
    "d \<in> set (dependencies node)" "d \<in> set C"
proof -
  from assms have "case map_of (nodes g) k of None \<Rightarrow> False
      | Some node \<Rightarrow> status node = Pending \<and> list_ex (\<lambda>d. d \<in> set C) (dependencies node)"
    unfolding stuck_set_def list_all_iff by blast
  then obtain node where n: "map_of (nodes g) k = Some node" "status node = Pending"
    "list_ex (\<lambda>d. d \<in> set C) (dependencies node)"
    by (cases "map_of (nodes g) k") auto
  from n(3) obtain d where "d \<in> set (dependencies node)" "d \<in> set C"
    unfolding list_ex_iff by blast
  with n that show thesis by blast
qed

lemma stuck_not_ready:
  assumes st: "stuck_set g C" and k: "k \<in> set C" and look: "map_of (nodes g) k = Some node"
  shows "status node = Pending \<and> \<not> allDepsComplete g node"
proof -
  from st k obtain node' d where n: "map_of (nodes g) k = Some node'" "status node' = Pending"
    "d \<in> set (dependencies node')" "d \<in> set C" by (rule stuck_node)
  from n(1) look have same: "node' = node" by simp
  from st n(4) obtain dn e where dn: "map_of (nodes g) d = Some dn" "status dn = Pending"
    by (rule stuck_node)
  then have "\<not> dep_completed g d" by (simp add: dep_completed_def)
  with n(3) same have "\<not> allDepsComplete g node"
    unfolding allDepsComplete_def list_all_iff by blast
  with n(2) same show ?thesis by simp
qed

lemma stuck_update_outside:
  assumes st: "stuck_set g C" and out: "k \<notin> set C"
  shows "stuck_set (update_node g k f) C"
proof -
  have "map_of (nodes (update_node g k f)) j = map_of (nodes g) j" if "j \<in> set C" for j
    using that out by (auto simp: map_of_update_node)
  with st show ?thesis unfolding stuck_set_def list_all_iff by simp
qed

lemma stuck_not_complete:
  assumes "stuck_set g C"
  shows "\<not> isDAGComplete g"
proof -
  from assms obtain k where k: "k \<in> set C" unfolding stuck_set_def by (cases C) auto
  with assms obtain node d where n: "map_of (nodes g) k = Some node" "status node = Pending"
    by (rule stuck_node)
  from n(1) have "(k, node) \<in> set (nodes g)" by (rule map_of_SomeD)
  with n(2) show ?thesis unfolding isDAGComplete_def list_all_iff by fastforce
qed

lemma getReadyTasks_loop_stuck:
  "stuck_set g C \<Longrightarrow> set ready \<inter> set C = {} \<Longrightarrow> getReadyTasks_loop ks g ready = (rs, g') \<Longrightarrow>
   stuck_set g' C \<and> set rs \<inter> set C = {}"
proof (induction ks arbitrary: g ready)
  case Nil
  then show ?case by simp
next
  case (Cons k ks)
  show ?case
  proof (cases "map_of (nodes g) k")
    case None
    with Cons.prems have run: "getReadyTasks_loop ks g ready = (rs, g')" by simp
    from Cons.IH[OF Cons.prems(1,2) run] show ?thesis .
  next
    case (Some node)
    have out: "k \<notin> set C" if "status node = Ready \<or> (status node = Pending \<and> allDepsComplete g node)"
    proof
      assume "k \<in> set C"
      from stuck_not_ready[OF Cons.prems(1) this Some] that show False by auto
    qed
    show ?thesis
    proof (cases "status node = Ready")
      case True
      with Some Cons.prems have run: "getReadyTasks_loop ks g (ready @ [k]) = (rs, g')" by simp
      from out True Cons.prems(2) have "set (ready @ [k]) \<inter> set C = {}" by auto
      from Cons.IH[OF Cons.prems(1) this run] show ?thesis .
    next
      case False
      show ?thesis
      proof (cases "status node = Pending \<and> allDepsComplete g node")
        case True
        let ?g1 = "update_node g k (\<lambda>n. n\<lparr> status := Ready \<rparr>)"
        from Some False True Cons.prems have run: "getReadyTasks_loop ks ?g1 (ready @ [k]) = (rs, g')"
          by simp
        from out True have o: "k \<notin> set C" by simp
        with Cons.prems(2) have d: "set (ready @ [k]) \<inter> set C = {}" by auto
        from Cons.prems(1) o have "stuck_set ?g1 C" by (rule stuck_update_outside)
        from Cons.IH[OF this d run] show ?thesis .
      next
        case nb: False
        with Some False Cons.prems have run: "getReadyTasks_loop ks g ready = (rs, g')" by auto
        from Cons.IH[OF Cons.prems(1,2) run] show ?thesis .
      qed
    qed
  qed
qed

lemma promote_dependents_stuck:
  "stuck_set g C \<Longrightarrow> stuck_set (promote_dependents ds g) C"
proof (induction ds arbitrary: g)
  case Nil
  then show ?case by simp
next
  case (Cons d ds)
  let ?g1 = "case map_of (nodes g) d of None \<Rightarrow> g
        | Some depNode \<Rightarrow>
            if status depNode = Pending \<and> allDepsComplete g depNode
            then update_node g d (\<lambda>n. n\<lparr> status := Ready \<rparr>) else g"
  have "stuck_set ?g1 C"
  proof (cases "map_of (nodes g) d")
    case None
    with Cons.prems show ?thesis by simp
  next
    case (Some depNode)
    show ?thesis
    proof (cases "status depNode = Pending \<and> allDepsComplete g depNode")
      case True
      have "d \<notin> set C"
      proof
        assume "d \<in> set C"
        from stuck_not_ready[OF Cons.prems this Some] True show False by simp
      qed
      with Cons.prems have "stuck_set (update_node g d (\<lambda>n. n\<lparr> status := Ready \<rparr>)) C"
        by (rule stuck_update_outside)
      with Some True show ?thesis by simp
    next
      case False
      with Some Cons.prems show ?thesis by auto
    qed
  qed
  from Cons.IH[OF this] show ?case by simp
qed

lemma markTaskComplete_stuck:
  assumes "stuck_set g C" and "k \<notin> set C"
  shows "stuck_set (markTaskComplete g k r) C"
proof (cases "map_of (nodes g) k")
  case None
  with assms show ?thesis by (simp add: markTaskComplete_def)
next
  case (Some node)
  let ?g1 = "update_node g k (\<lambda>n. n\<lparr> status := (if res_success r then Completed else Failed),
                              result := Some r \<rparr>)"
  from assms have s1: "stuck_set ?g1 C" by (rule stuck_update_outside)
  then have "stuck_set (promote_dependents (dependents node) ?g1) C"
    by (rule promote_dependents_stuck)
  with s1 Some show ?thesis by (cases "res_success r") (simp_all add: markTaskComplete_def Let_def)
qed

lemma dispatch_batch_stuck:
  "stuck_set (bs_dag b) C \<Longrightarrow> set rs \<inter> set C = {} \<Longrightarrow>
   set (map fst (bs_started b)) \<inter> set C = {} \<Longrightarrow> set (map fst (bs_log b)) \<inter> set C = {} \<Longrightarrow>
   stuck_set (bs_dag (dispatch_batch ts rs b)) C
   \<and> set (map fst (bs_started (dispatch_batch ts rs b))) \<inter> set C = {}
   \<and> set (map fst (bs_log (dispatch_batch ts rs b))) \<inter> set C = {}"
proof (induction rs arbitrary: b)
  case Nil
  then show ?case by simp
next
  case (Cons k rs)
  from Cons.prems(2) have kc: "k \<notin> set C" and rc: "set rs \<inter> set C = {}" by auto
  let ?b1 = "case map_of (nodes (bs_dag b)) k of
          None \<Rightarrow>
            b\<lparr> bs_error := (case bs_error b of None \<Rightarrow> Some ''TypeError'' | Some e \<Rightarrow> Some e) \<rparr>
        | Some node \<Rightarrow>
            (case find_task ts node k of
               None \<Rightarrow> b
             | Some task \<Rightarrow>
                 b\<lparr> bs_dag := update_node (bs_dag b) k (\<lambda>n. n\<lparr> status := Running \<rparr>),
                    bs_started := bs_started b @ [(k, task)],
                    bs_log := bs_log b @ [(k, bs_dag b)] \<rparr>)"
  have step: "dispatch_batch ts (k # rs) b = dispatch_batch ts rs ?b1" by simp
  have "stuck_set (bs_dag ?b1) C \<and> set (map fst (bs_started ?b1)) \<inter> set C = {}
        \<and> set (map fst (bs_log ?b1)) \<inter> set C = {}"
  proof (cases "map_of (nodes (bs_dag b)) k")
    case None
    with Cons.prems show ?thesis by simp
  next
    case (Some node)
    show ?thesis
    proof (cases "find_task ts node k")
      case None
      with Some Cons.prems show ?thesis by simp
    next
      case (Some task)
      from Cons.prems(1) kc have "stuck_set (update_node (bs_dag b) k (\<lambda>n. n\<lparr> status := Running \<rparr>)) C"
        by (rule stuck_update_outside)
      with \<open>map_of (nodes (bs_dag b)) k = Some node\<close> Some Cons.prems(3,4) kc show ?thesis by auto
    qed
  qed
  then have "stuck_set (bs_dag ?b1) C" "set (map fst (bs_started ?b1)) \<inter> set C = {}"
    "set (map fst (bs_log ?b1)) \<inter> set C = {}" by simp_all
  from Cons.IH[OF this(1) rc this(2,3)] show ?case unfolding step .
qed

lemma complete_batch_stuck:
  "stuck_set g C \<Longrightarrow> set (map fst started) \<inter> set C = {} \<Longrightarrow>
   stuck_set (fst (snd (complete_batch exec w g started acc))) C"
proof (induction started arbitrary: g w acc)
  case Nil
  then show ?case by simp
next
  case (Cons p started)
  obtain k task where p: "p = (k, task)" by (cases p)
  obtain o' w' where ex: "exec w task = (o', w')" by (cases "exec w task")
  from Cons.prems(2) p have kc: "k \<notin> set C" and rc: "set (map fst started) \<inter> set C = {}" by auto
  show ?case
  proof (cases o')
    case (Inl e)
    with p ex Cons.prems(1) show ?thesis by simp
  next
    case (Inr r)
    from Cons.prems(1) kc have "stuck_set (markTaskComplete g k r) C" by (rule markTaskComplete_stuck)
    from Cons.IH[OF this rc] p ex Inr show ?thesis by simp
  qed
qed

lemma task_keys_fst: "map fst (task_keys g) = map fst (nodes g)"
  by (simp add: task_keys_def comp_def)

lemma advances_refl: "advances g g"
  by (simp add: advances_def)

lemma advances_trans: "advances g g' \<Longrightarrow> advances g' g'' \<Longrightarrow> advances g g''"
  unfolding advances_def by auto

lemma advances_keys: "advances g g' \<Longrightarrow> map fst (nodes g') = map fst (nodes g)"
  unfolding advances_def by (metis task_keys_fst)

lemma advances_update:
  assumes "\<And>n. taskId (f n) = taskId n" and "is_open (status_of g k)"
  shows "advances g (update_node g k f)"
proof -
  have "task_keys (update_node g k f) = task_keys g"
    using assms(1) by (simp add: task_keys_def update_node_def comp_def if_distrib cong: if_cong)
  moreover have "\<forall>j. \<not> is_open (status_of g j) \<longrightarrow> status_of (update_node g k f) j = status_of g j"
    using assms(2) by (auto simp: status_of_update_node)
  ultimately show ?thesis by (simp add: advances_def)
qed

lemma advances_tasks_found: "advances g g' \<Longrightarrow> tasks_found ts g \<Longrightarrow> tasks_found ts g'"
  by (simp add: advances_def tasks_found_def)

lemma only_promotes_status:
  assumes "map_of (nodes g) k = Some node" and "status node = Pending"
  shows "is_open (status_of g k)"
  using assms by (simp add: is_open_def status_of_def)

lemma getReadyTasks_loop_advances:
  "getReadyTasks_loop ks g ready = (rs, g') \<Longrightarrow> advances g g'"
proof (induction ks arbitrary: g ready)
  case Nil
  then show ?case by (simp add: advances_refl)
next
  case (Cons k ks)
  show ?case
  proof (cases "map_of (nodes g) k")
    case None
    with Cons.prems have "getReadyTasks_loop ks g ready = (rs, g')" by simp
    then show ?thesis by (rule Cons.IH)
  next
    case (Some node)
    show ?thesis
    proof (cases "status node = Ready")
      case True
      with Some Cons.prems have "getReadyTasks_loop ks g (ready @ [k]) = (rs, g')" by simp
      then show ?thesis by (rule Cons.IH)
    next
      case False
      show ?thesis
      proof (cases "status node = Pending \<and> allDepsComplete g node")
        case True
        let ?g1 = "update_node g k (\<lambda>n. n\<lparr> status := Ready \<rparr>)"
        from Some False True Cons.prems have "getReadyTasks_loop ks ?g1 (ready @ [k]) = (rs, g')"
          by simp
        then have "advances ?g1 g'" by (rule Cons.IH)
        moreover have "advances g ?g1"
          using only_promotes_status[OF Some] True by (intro advances_update) simp_all
        ultimately show ?thesis by (rule advances_trans[rotated])
      next
        case nb: False
        with Some False Cons.prems have "getReadyTasks_loop ks g ready = (rs, g')" by auto
        then show ?thesis by (rule Cons.IH)
      qed
    qed
  qed
qed

lemma promote_dependents_advances: "advances g (promote_dependents ds g)"
proof (induction ds arbitrary: g)
  case Nil
  show ?case by (simp add: advances_refl)
next
  case (Cons d ds)
  let ?g1 = "case map_of (nodes g) d of None \<Rightarrow> g
        | Some depNode \<Rightarrow>
            if status depNode = Pending \<and> allDepsComplete g depNode
            then update_node g d (\<lambda>n. n\<lparr> status := Ready \<rparr>) else g"
  have "advances g ?g1"
  proof (cases "map_of (nodes g) d")
    case None
    then show ?thesis by (simp add: advances_refl)
  next
    case (Some depNode)
    show ?thesis
    proof (cases "status depNode = Pending \<and> allDepsComplete g depNode")
      case True
      have "advances g (update_node g d (\<lambda>n. n\<lparr> status := Ready \<rparr>))"
        using only_promotes_status[OF Some] True by (intro advances_update) simp_all
      with Some True show ?thesis by simp
    next
      case False
      with Some show ?thesis by (auto simp: advances_refl)
    qed
  qed
  moreover have "advances ?g1 (promote_dependents ds ?g1)" by (rule Cons.IH)
  ultimately show ?case by (auto intro: advances_trans)
qed

lemma markTaskComplete_advances:
  assumes "status_of g k = Some Running"
  shows "advances g (markTaskComplete g k r)"
proof -
  from assms obtain node where node: "map_of (nodes g) k = Some node"
    by (auto simp: status_of_def)
  let ?g1 = "update_node g k (\<lambda>n. n\<lparr> status := (if res_success r then Completed else Failed),
                              result := Some r \<rparr>)"
  have a1: "advances g ?g1" using assms by (intro advances_update) (simp_all add: is_open_def)
  have a2: "advances ?g1 (promote_dependents (dependents node) ?g1)"
    by (rule promote_dependents_advances)
  from a1 a2 have "advances g (promote_dependents (dependents node) ?g1)" by (rule advances_trans)
  with a1 node show ?thesis
    by (cases "res_success r") (simp_all add: markTaskComplete_def Let_def)
qed

lemma tasks_found_lookup:
  assumes "tasks_found ts g" and "map_of (nodes g) k = Some node"
  shows "find_task ts node k \<noteq> None"
proof -
  from assms(2) have "(k, node) \<in> set (nodes g)" by (rule map_of_SomeD)
  then have "(\<lambda>p. (fst p, taskId (snd p))) (k, node) \<in> set (task_keys g)"
    unfolding task_keys_def set_map by (rule imageI)
  then have "(k, taskId node) \<in> set (task_keys g)" by simp
  with assms(1) have "find (\<lambda>t. task_id t = snd (k, taskId node) \<or> task_description t = fst (k, taskId node)) ts \<noteq> None"
    unfolding tasks_found_def list_all_iff by blast
  then show ?thesis by (simp add: find_task_def)
qed

lemma dispatch_batch_all:
  "tasks_found ts (bs_dag b) \<Longrightarrow> distinct rs \<Longrightarrow>
   \<forall>k \<in> set rs. status_of (bs_dag b) k = Some Ready \<Longrightarrow>
   bs_error (dispatch_batch ts rs b) = bs_error b
   \<and> map fst (bs_started (dispatch_batch ts rs b)) = map fst (bs_started b) @ rs
   \<and> advances (bs_dag b) (bs_dag (dispatch_batch ts rs b))"
proof (induction rs arbitrary: b)
  case Nil
  then show ?case by (simp add: advances_refl)
next
  case (Cons k rs)
  let ?g = "bs_dag b"
  from Cons.prems(3) have sk: "status_of ?g k = Some Ready" by simp
  then obtain node where node: "map_of (nodes ?g) k = Some node" by (auto simp: status_of_def)
  from tasks_found_lookup[OF Cons.prems(1) node] obtain task where task: "find_task ts node k = Some task"
    by auto
  let ?g1 = "update_node ?g k (\<lambda>n. n\<lparr> status := Running \<rparr>)"
  let ?b1 = "b\<lparr> bs_dag := ?g1, bs_started := bs_started b @ [(k, task)],
                 bs_log := bs_log b @ [(k, ?g)] \<rparr>"
  from node task have step: "dispatch_batch ts (k # rs) b = dispatch_batch ts rs ?b1" by simp
  have adv: "advances ?g ?g1" using sk by (intro advances_update) (simp_all add: is_open_def)
  then have tf: "tasks_found ts (bs_dag ?b1)" using Cons.prems(1) by (simp add: advances_tasks_found)
  from Cons.prems(2) have krs: "k \<notin> set rs" and drs: "distinct rs" by simp_all
  have rd: "\<forall>j \<in> set rs. status_of (bs_dag ?b1) j = Some Ready"
    using Cons.prems(3) krs by (auto simp: status_of_update_node)
  from Cons.IH[OF tf drs rd]
  have "bs_error (dispatch_batch ts rs ?b1) = bs_error ?b1"
    "map fst (bs_started (dispatch_batch ts rs ?b1)) = map fst (bs_started ?b1) @ rs"
    "advances (bs_dag ?b1) (bs_dag (dispatch_batch ts rs ?b1))" by simp_all
  moreover from adv have "advances ?g (bs_dag ?b1)" by simp
  ultimately show ?case unfolding step by (auto intro: advances_trans)
qed

lemma complete_batch_done:
  "ready_inv g \<Longrightarrow> distinct (map fst started) \<Longrightarrow>
   \<forall>k \<in> set (map fst started). status_of g k = Some Running \<Longrightarrow> exec_returns exec \<Longrightarrow>
   \<exists>rsl g3 w3. complete_batch exec w g started acc = (Inr rsl, g3, w3)
      \<and> ready_inv g3 \<and> advances g g3
      \<and> (\<forall>k \<in> set (map fst started). \<not> is_open (status_of g3 k))"
proof (induction started arbitrary: g w acc)
  case Nil
  then show ?case by (simp add: advances_refl)
next
  case (Cons p started)
  obtain k task where p: "p = (k, task)" by (cases p)
  from Cons.prems(4) obtain r w' where ex: "exec w task = (Inr r, w')"
    unfolding exec_returns_def by blast
  let ?g1 = "markTaskComplete g k r"
  from Cons.prems(3) p have run: "status_of g k = Some Running" by simp
  note m = markTaskComplete_inv[OF Cons.prems(1) run, of r]
  from m have inv1: "ready_inv ?g1" by simp
  from m have term1: "\<not> is_open (status_of ?g1 k)" by (simp add: is_open_def)
  have adv1: "advances g ?g1" using run by (rule markTaskComplete_advances)
  from Cons.prems(2) p have d: "distinct (map fst started)" and kn: "k \<notin> set (map fst started)"
    by simp_all
  have r1: "\<forall>j \<in> set (map fst started). status_of ?g1 j = Some Running"
  proof
    fix j assume j: "j \<in> set (map fst started)"
    with kn have "j \<noteq> k" by auto
    moreover from j Cons.prems(3) have gj: "status_of g j = Some Running" by auto
    ultimately have "status_of ?g1 j = status_of g j
             \<or> (status_of g j = Some Pending \<and> status_of ?g1 j = Some Ready)"
      using m by blast
    with gj show "status_of ?g1 j = Some Running" by auto
  qed
  from Cons.IH[OF inv1 d r1 Cons.prems(4), of w' "acc @ [r]"]
  obtain rsl g3 w3 where ih: "complete_batch exec w' ?g1 started (acc @ [r]) = (Inr rsl, g3, w3)"
    "ready_inv g3" "advances ?g1 g3" "\<forall>j \<in> set (map fst started). \<not> is_open (status_of g3 j)"
    by blast
  from adv1 ih(3) have adv: "advances g g3" by (rule advances_trans)
  from ih(3) term1 have "status_of g3 k = status_of ?g1 k" unfolding advances_def by blast
  with term1 have "\<not> is_open (status_of g3 k)" by simp
  with ih(4) p have "\<forall>j \<in> set (map fst (p # started)). \<not> is_open (status_of g3 j)" by simp
  moreover from p ex ih(1) have "complete_batch exec w g (p # started) acc = (Inr rsl, g3, w3)"
    by simp
  ultimately show ?case using ih(2) adv by blast
qed

lemma open_count_le:
  assumes "advances g g'"
  shows "open_count g' \<le> open_count g"
proof -
  have keys: "map fst (nodes g') = map fst (nodes g)" using assms by (rule advances_keys)
  have imp: "is_open (status_of g' k) \<Longrightarrow> is_open (status_of g k)" for k
    using assms unfolding advances_def by metis
  have "filter (\<lambda>k. is_open (status_of g' k)) (map fst (nodes g))
        = filter (\<lambda>k. is_open (status_of g' k)) (filter (\<lambda>k. is_open (status_of g k)) (map fst (nodes g)))"
    using imp by (auto simp: filter_filter intro: filter_cong)
  then have "length (filter (\<lambda>k. is_open (status_of g' k)) (map fst (nodes g)))
        \<le> length (filter (\<lambda>k. is_open (status_of g k)) (map fst (nodes g)))"
    by (metis length_filter_le)
  then show ?thesis by (simp add: open_count_def keys)
qed

lemma open_count_less:
  assumes adv: "advances g g'" and k: "status_of g k \<noteq> None"
    and opn: "is_open (status_of g k)" and cls: "\<not> is_open (status_of g' k)"
  shows "open_count g' < open_count g"
proof -
  have keys: "map fst (nodes g') = map fst (nodes g)" using adv by (rule advances_keys)
  have imp: "is_open (status_of g' j) \<Longrightarrow> is_open (status_of g j)" for j
    using adv unfolding advances_def by metis
  let ?O = "filter (\<lambda>k. is_open (status_of g k)) (map fst (nodes g))"
  have eq: "filter (\<lambda>k. is_open (status_of g' k)) (map fst (nodes g))
        = filter (\<lambda>k. is_open (status_of g' k)) ?O"
    using imp by (auto simp: filter_filter intro: filter_cong)
  from k have "k \<in> set (map fst (nodes g))"
    by (auto simp: status_of_def map_of_eq_None_iff)
  with opn have "k \<in> set ?O" by simp
  from this cls have "length (filter (\<lambda>k. is_open (status_of g' k)) ?O) < length ?O"
    by (rule length_filter_less)
  then show ?thesis by (simp add: open_count_def keys eq)
qed

lemma executePlan_fuel_terminates:
  "ready_inv g \<Longrightarrow> list_all dispatch_ok lg \<Longrightarrow> tasks_found ts g \<Longrightarrow> exec_returns exec \<Longrightarrow>
   open_count g < n \<Longrightarrow>
   exit (executePlan_fuel n exec ts w g rs lg) = Complete
   \<or> exit (executePlan_fuel n exec ts w g rs lg) = Deadlock"
proof (induction n arbitrary: g w rs lg)
  case 0
  then show ?case by simp
next
  case (Suc n)
  show ?case
  proof (cases "isDAGComplete g")
    case True
    then show ?thesis by simp
  next
    case False
    obtain ready g1 where gr: "getReadyTasks g = (ready, g1)" by (cases "getReadyTasks g")
    from getReadyTasks_inv[OF Suc.prems(1) gr]
    have inv1: "ready_inv g1" and dr: "distinct ready"
      and allr: "\<forall>k \<in> set ready. status_of g1 k = Some Ready" by simp_all
    from gr have adv1: "advances g g1"
      unfolding getReadyTasks_def by (rule getReadyTasks_loop_advances)
    show ?thesis
    proof (cases "ready = []")
      case True
      with False gr show ?thesis by simp
    next
      case ne: False
      let ?ini = "\<lparr> bs_dag = g1, bs_started = [], bs_log = lg, bs_error = None \<rparr>"
      let ?fin = "dispatch_batch ts ready ?ini"
      have tf1: "tasks_found ts (bs_dag ?ini)"
        using advances_tasks_found[OF adv1 Suc.prems(3)] by simp
      have pre: "ready_inv (bs_dag ?ini)" "list_all dispatch_ok (bs_log ?ini)"
        "\<forall>k \<in> set ready. status_of (bs_dag ?ini) k = Some Ready"
        "\<forall>k \<in> set (map fst (bs_started ?ini)). status_of (bs_dag ?ini) k = Some Running"
        "distinct (map fst (bs_started ?ini))" "set (map fst (bs_started ?ini)) \<inter> set ready = {}"
        using inv1 allr Suc.prems(2) by simp_all
      from dispatch_batch_all[OF tf1 dr pre(3)]
      have e2: "bs_error ?fin = None" and st2: "map fst (bs_started ?fin) = ready"
        and adv2: "advances g1 (bs_dag ?fin)" by simp_all
      from dispatch_batch_inv[OF pre(1,2) dr pre(3,4,5,6), of ts]
      have b1: "ready_inv (bs_dag ?fin)" and b2: "list_all dispatch_ok (bs_log ?fin)"
        and b3: "\<forall>k \<in> set (map fst (bs_started ?fin)). status_of (bs_dag ?fin) k = Some Running"
        and b4: "distinct (map fst (bs_started ?fin))" by simp_all
      from complete_batch_done[OF b1 b4 b3 Suc.prems(4), of w "[]"]
      obtain rsl g3 w3 where cb: "complete_batch exec w (bs_dag ?fin) (bs_started ?fin) [] = (Inr rsl, g3, w3)"
        and inv3: "ready_inv g3" and adv3: "advances (bs_dag ?fin) g3"
        and cl: "\<forall>k \<in> set (map fst (bs_started ?fin)). \<not> is_open (status_of g3 k)" by blast
      have unf: "executePlan_fuel (Suc n) exec ts w g rs lg
                 = executePlan_fuel n exec ts w3 g3 (rs @ rsl) (bs_log ?fin)"
        using False gr ne e2 cb by (simp add: Let_def del: dispatch_batch.simps)
      from adv2 adv3 have adv13: "advances g1 g3" by (rule advances_trans)
      from adv1 adv13 have adv03: "advances g g3" by (rule advances_trans)
      from ne obtain k where k: "k \<in> set ready" by (cases ready) auto
      with allr have k1: "status_of g1 k = Some Ready" by simp
      from k cl st2 have k3: "\<not> is_open (status_of g3 k)" by simp
      from k1 have "open_count g3 < open_count g1"
        by (intro open_count_less[OF adv13 _ _ k3]) (simp_all add: is_open_def)
      also have "open_count g1 \<le> open_count g" using adv1 by (rule open_count_le)
      finally have "open_count g3 < n" using Suc.prems(5) by simp
      from Suc.IH[OF inv3 b2 advances_tasks_found[OF adv03 Suc.prems(3)] Suc.prems(4) this]
      show ?thesis unfolding unf .
    qed
  qed
qed

lemma always_ok_returns: "exec_returns always_ok"
  by (simp add: exec_returns_def always_ok_def)

lemma root_cycle_ready_inv: "ready_inv root_and_cycle"
  by (simp add: ready_inv_def root_and_cycle_def allDepsComplete_def)

lemma root_cycle_tasks_found: "tasks_found (tasks root_cycle_plan) (dag root_cycle_plan)"
  by (simp add: tasks_found_def task_keys_def root_cycle_plan_def root_and_cycle_def)

lemma root_cycle_open: "open_count root_and_cycle = 3"
  by (simp add: open_count_def root_and_cycle_def status_of_def is_open_def)

lemma waiting_blocked:
  assumes "all_waiting g"
  shows "all_blocked g"
proof -
  have nc: "\<not> dep_completed g d" for d
  proof (cases "map_of (nodes g) d")
    case None
    then show ?thesis by (simp add: dep_completed_def)
  next
    case (Some dn)
    then have "(d, dn) \<in> set (nodes g)" by (rule map_of_SomeD)
    with assms have "status dn = Pending" unfolding all_waiting_def list_all_iff by fastforce
    with Some show ?thesis by (simp add: dep_completed_def)
  qed
  have "\<not> allDepsComplete g n" if "dependencies n \<noteq> []" for n
  proof -
    from that obtain d ds where "dependencies n = d # ds" by (cases "dependencies n") auto
    with nc[of d] show ?thesis by (simp add: allDepsComplete_def)
  qed
  with assms show ?thesis unfolding all_waiting_def all_blocked_def list_all_iff by blast
qed

lemma executePlan_fuel_stuck:
  "stuck_set g C \<Longrightarrow> set (map fst lg) \<inter> set C = {} \<Longrightarrow>
   stuck_set (run_dag (executePlan_fuel n exec ts w g rs lg)) C
   \<and> exit (executePlan_fuel n exec ts w g rs lg) \<noteq> Complete
   \<and> set (map fst (run_log (executePlan_fuel n exec ts w g rs lg))) \<inter> set C = {}"
proof (induction n arbitrary: w g rs lg)
  case 0
  then show ?case by simp
next
  case (Suc n)
  from Suc.prems(1) have nc: "\<not> isDAGComplete g" by (rule stuck_not_complete)
  obtain ready g1 where gr: "getReadyTasks g = (ready, g1)" by (cases "getReadyTasks g")
  from getReadyTasks_loop_stuck[OF Suc.prems(1) _ gr[unfolded getReadyTasks_def]]
  have s1: "stuck_set g1 C" and rc: "set ready \<inter> set C = {}" by simp_all
  show ?case
  proof (cases "ready = []")
    case True
    with nc gr s1 Suc.prems(2) show ?thesis by simp
  next
    case ne: False
    let ?ini = "\<lparr> bs_dag = g1, bs_started = [], bs_log = lg, bs_error = None \<rparr>"
    let ?fin = "dispatch_batch ts ready ?ini"
    have "stuck_set (bs_dag ?ini) C" "set (map fst (bs_started ?ini)) \<inter> set C = {}"
      "set (map fst (bs_log ?ini)) \<inter> set C = {}"
      using s1 Suc.prems(2) by simp_all
    from dispatch_batch_stuck[OF this(1) rc this(2,3), of ts]
    have b1: "stuck_set (bs_dag ?fin) C" and b2: "set (map fst (bs_started ?fin)) \<inter> set C = {}"
      and b3: "set (map fst (bs_log ?fin)) \<inter> set C = {}" by simp_all
    have unf: "executePlan_fuel (Suc n) exec ts w g rs lg =
         (case bs_error ?fin of
            Some e \<Rightarrow> \<lparr> exit = Threw e, run_results = rs, run_dag = bs_dag ?fin,
                         run_log = bs_log ?fin, run_world = w \<rparr>
          | None \<Rightarrow>
              (case complete_batch exec w (bs_dag ?fin) (bs_started ?fin) [] of
                 (Inl e, g3, w3) \<Rightarrow> \<lparr> exit = Threw e, run_results = rs, run_dag = g3,
                                      run_log = bs_log ?fin, run_world = w3 \<rparr>
               | (Inr batchResults, g3, w3) \<Rightarrow>
                   executePlan_fuel n exec ts w3 g3 (rs @ batchResults) (bs_log ?fin)))"
      using nc gr ne by (simp add: Let_def del: dispatch_batch.simps)
    show ?thesis
    proof (cases "bs_error ?fin")
      case (Some e)
      with b1 b3 show ?thesis unfolding unf by simp
    next
      case None
      obtain o3 g3 w3 where cb: "complete_batch exec w (bs_dag ?fin) (bs_started ?fin) [] = (o3, g3, w3)"
        by (cases "complete_batch exec w (bs_dag ?fin) (bs_started ?fin) []") auto
      from complete_batch_stuck[OF b1 b2, of exec w "[]"] cb have s3: "stuck_set g3 C" by simp
      show ?thesis
      proof (cases o3)
        case (Inl e)
        with None cb s3 b3 show ?thesis unfolding unf by simp
      next
        case (Inr batchResults)
        from Suc.IH[OF s3 b3, of w3 "rs @ batchResults"] None cb Inr
        show ?thesis unfolding unf by simp
      qed
    qed
  qed
qed

lemma root_cycle_stuck: "stuck_set root_and_cycle [''node_1'', ''node_2'']"
  by (simp add: stuck_set_def root_and_cycle_def)

lemma root_cycle_run:
  "exit (executePlan (Suc (Suc 0)) always_ok () root_cycle_plan) = Deadlock
   \<and> map fst (run_log (executePlan (Suc (Suc 0)) always_ok () root_cycle_plan)) = [''node_0'']
   \<and> map res_taskId (run_results (executePlan (Suc (Suc 0)) always_ok () root_cycle_plan)) = [''task-1'']"
  unfolding executePlan_def
  by (simp add: root_cycle_plan_def root_and_cycle_def isDAGComplete_def getReadyTasks_def
      allDepsComplete_def dep_completed_def update_node_def find_task_def always_ok_def
      markTaskComplete_def Let_def)

section \<open>Properties of request processing\<close>

lemma track_turn_flag: "isProcessing (track_turn st role t) = isProcessing st"
  by (simp add: track_turn_def)

lemma finish_request_flag: "flag_kept st (finish_request env st userInput run)"
  unfolding flag_kept_def finish_request_def Let_def
  by (cases "lilith_critique env (join_with [CHR 0x0A, CHR 0x0A] (map res_output (run_results run)))";
      cases "synthesizeResults env (run_dag run) userInput")
     (simp_all add: track_turn_flag)

lemma execute_request_flag: "flag_kept st (execute_request env st userInput plan)"
proof -
  let ?st1 = "st\<lparr> activePlan := Some plan, emitted := emitted st @ [''plan_created''] \<rparr>"
  let ?run = "executePlan_value (plan_fuel env) (satellites env) (world env) plan"
  have f: "flag_kept ?st1 (finish_request env ?st1 userInput ?run)" by (rule finish_request_flag)
  obtain out st2 trace where fr: "finish_request env ?st1 userInput ?run = (out, st2, trace)"
    by (cases "finish_request env ?st1 userInput ?run") auto
  from f fr have k: "isProcessing st2 = isProcessing st"
    "list_all (\<lambda>s. isProcessing s = isProcessing st) trace"
    by (simp_all add: flag_kept_def)
  show ?thesis
    by (cases "exit ?run") (simp_all add: execute_request_def Let_def flag_kept_def fr k)
qed

lemma request_body_flag: "flag_kept st (request_body env st userInput)"
proof -
  let ?st1 = "track_turn st ''user'' userInput"
  have s1: "isProcessing ?st1 = isProcessing st" by (rule track_turn_flag)
  show ?thesis
  proof (cases "shaka_execute env userInput")
    case Hangs
    then show ?thesis by (simp add: request_body_def Let_def flag_kept_def s1)
  next
    case (Thrown e)
    then show ?thesis by (simp add: request_body_def Let_def flag_kept_def s1)
  next
    case (Returned planResult)
    show ?thesis
    proof (cases "res_success planResult")
      case False
      with Returned show ?thesis by (simp add: request_body_def Let_def flag_kept_def s1)
    next
      case True
      show ?thesis
      proof (cases "res_plan planResult")
        case None
        with Returned True show ?thesis by (simp add: request_body_def Let_def flag_kept_def s1)
      next
        case (Some plan)
        obtain out st2 trace where
          er: "execute_request env ?st1 userInput (JSON_roundtrip plan) = (out, st2, trace)"
          by (cases "execute_request env ?st1 userInput (JSON_roundtrip plan)") auto
        from execute_request_flag[of ?st1 env userInput "JSON_roundtrip plan"] er s1
        have "isProcessing st2 = isProcessing st"
          "list_all (\<lambda>s. isProcessing s = isProcessing st) trace"
          by (simp_all add: flag_kept_def)
        with Returned True Some er show ?thesis
          by (simp add: request_body_def Let_def flag_kept_def s1)
      qed
    qed
  qed
qed

lemma run_request_props:
  "list_all isProcessing (snd (snd (run_request env st userInput)))
   \<and> (fst (run_request env st userInput) \<noteq> Hangs \<longrightarrow>
        \<not> isProcessing (fst (snd (run_request env st userInput)))
        \<and> activePlan (fst (snd (run_request env st userInput))) = None)"
proof -
  let ?st0 = "st\<lparr> isProcessing := True \<rparr>"
  obtain out st1 trace where rb: "request_body env ?st0 userInput = (out, st1, trace)"
    by (cases "request_body env ?st0 userInput") auto
  from request_body_flag[of ?st0 env userInput] rb
  have tr: "list_all isProcessing trace" by (simp add: flag_kept_def)
  show ?thesis
    by (cases out) (simp_all add: run_request_def rb tr)
qed

lemma planning_failure:
  assumes "shaka_execute env userInput = Returned pr" and "\<not> res_success pr"
  shows "fst (run_request env st userInput)
         = Thrown (''Planning failed: '' @ (case res_error pr of None \<Rightarrow> ''undefined'' | Some e \<Rightarrow> e))"
  using assms by (simp add: run_request_def request_body_def Let_def)

text \<open>
  C9. A call of \<^verbatim>\<open>processRequest\<close> that finds the flag set throws
  \<^verbatim>\<open>Already processing a request\<close> and changes nothing; an accepted call has the flag
  set in every state in which it waits, so a call arriving then is rejected; and when
  the accepted call completes, by returning or by throwing (a failed planning throws
  \<^verbatim>\<open>Planning failed: ...\<close>), the flag and the active plan are reset, and the next call
  is accepted.
\<close>

theorem C9_processing_flag:
  "(isProcessing st \<longrightarrow>
      processRequest env st userInput = (Thrown ''Already processing a request'', st, []))
   \<and> (\<not> isProcessing st \<longrightarrow>
        processRequest env st userInput = run_request env st userInput
        \<and> list_all isProcessing (snd (snd (processRequest env st userInput)))
        \<and> list_all (\<lambda>s. processRequest env2 s input2 = (Thrown ''Already processing a request'', s, []))
             (snd (snd (processRequest env st userInput)))
        \<and> (fst (processRequest env st userInput) \<noteq> Hangs \<longrightarrow>
             \<not> isProcessing (fst (snd (processRequest env st userInput)))
             \<and> activePlan (fst (snd (processRequest env st userInput))) = None
             \<and> processRequest env2 (fst (snd (processRequest env st userInput))) input2
                 = run_request env2 (fst (snd (processRequest env st userInput))) input2)
        \<and> (shaka_execute env userInput = Returned pr \<and> \<not> res_success pr \<longrightarrow>
             fst (processRequest env st userInput)
               = Thrown (''Planning failed: '' @
                   (case res_error pr of None \<Rightarrow> ''undefined'' | Some e \<Rightarrow> e))
             \<and> \<not> isProcessing (fst (snd (processRequest env st userInput)))))"
proof -
  have busy: "processRequest env st userInput = (Thrown ''Already processing a request'', st, [])"
    if "isProcessing st"
    using that by (simp add: processRequest_def)
  have idle: "processRequest env st userInput = run_request env st userInput
        \<and> list_all isProcessing (snd (snd (processRequest env st userInput)))
        \<and> list_all (\<lambda>s. processRequest env2 s input2 = (Thrown ''Already processing a request'', s, []))
             (snd (snd (processRequest env st userInput)))
        \<and> (fst (processRequest env st userInput) \<noteq> Hangs \<longrightarrow>
             \<not> isProcessing (fst (snd (processRequest env st userInput)))
             \<and> activePlan (fst (snd (processRequest env st userInput))) = None
             \<and> processRequest env2 (fst (snd (processRequest env st userInput))) input2
                 = run_request env2 (fst (snd (processRequest env st userInput))) input2)
        \<and> (shaka_execute env userInput = Returned pr \<and> \<not> res_success pr \<longrightarrow>
             fst (processRequest env st userInput)
               = Thrown (''Planning failed: '' @
                   (case res_error pr of None \<Rightarrow> ''undefined'' | Some e \<Rightarrow> e))
             \<and> \<not> isProcessing (fst (snd (processRequest env st userInput))))"
    if nf: "\<not> isProcessing st"
  proof -
    from nf have eq: "processRequest env st userInput = run_request env st userInput"
      by (simp add: processRequest_def)
    note props = run_request_props[of env st userInput]
    from props have tr: "list_all isProcessing (snd (snd (run_request env st userInput)))" by simp
    then have rej: "list_all (\<lambda>s. processRequest env2 s input2 = (Thrown ''Already processing a request'', s, []))
             (snd (snd (run_request env st userInput)))"
      unfolding list_all_iff by (simp add: processRequest_def)
    have fin: "\<not> isProcessing (fst (snd (run_request env st userInput)))
             \<and> activePlan (fst (snd (run_request env st userInput))) = None
             \<and> processRequest env2 (fst (snd (run_request env st userInput))) input2
                 = run_request env2 (fst (snd (run_request env st userInput))) input2"
      if "fst (run_request env st userInput) \<noteq> Hangs"
      using that props by (simp add: processRequest_def)
    have pf: "fst (run_request env st userInput)
               = Thrown (''Planning failed: '' @
                   (case res_error pr of None \<Rightarrow> ''undefined'' | Some e \<Rightarrow> e))
             \<and> \<not> isProcessing (fst (snd (run_request env st userInput)))"
      if "shaka_execute env userInput = Returned pr \<and> \<not> res_success pr"
    proof -
      from that have t: "fst (run_request env st userInput)
         = Thrown (''Planning failed: '' @ (case res_error pr of None \<Rightarrow> ''undefined'' | Some e \<Rightarrow> e))"
        using planning_failure[of env userInput pr st] by simp
      then have "fst (run_request env st userInput) \<noteq> Hangs" by simp
      with props t show ?thesis by simp
    qed
    from tr rej fin pf show ?thesis unfolding eq by blast
  qed
  from busy idle show ?thesis by blast
qed

theorem C9_processing_flag_witness:
  "\<not> isProcessing idle_mesh
   \<and> fst (processRequest failing_planner idle_mesh ''hi'') = Thrown ''Planning failed: model offline''
   \<and> \<not> isProcessing (fst (snd (processRequest failing_planner idle_mesh ''hi'')))
   \<and> isProcessing (idle_mesh\<lparr> isProcessing := True \<rparr>)
   \<and> processRequest failing_planner (idle_mesh\<lparr> isProcessing := True \<rparr>) ''hi''
       = (Thrown ''Already processing a request'', idle_mesh\<lparr> isProcessing := True \<rparr>, [])"
proof -
  have idle: "\<not> isProcessing idle_mesh" by (simp add: idle_mesh_def)
  have busy: "isProcessing (idle_mesh\<lparr> isProcessing := True \<rparr>)" by simp
  let ?R = "\<lparr> res_taskId = ''plan-task'', res_satelliteId = ''shaka'', res_success = False,
         res_output = [], res_error = Some ''model offline'', res_plan = None \<rparr>"
  have ex: "shaka_execute failing_planner ''hi'' = Returned ?R"
    by (simp add: failing_planner_def shaka_execute_def shaka_execute_plan_def
        createExecutionPlan_def analyzAndPlan_def)
  from ex have pr: "shaka_execute failing_planner ''hi'' = Returned ?R \<and> \<not> res_success ?R" by simp
  from C9_processing_flag [of idle_mesh failing_planner "''hi''" failing_planner "''hi''" ?R] idle pr
  have ab: "fst (processRequest failing_planner idle_mesh ''hi'')
              = Thrown (''Planning failed: '' @
                   (case res_error ?R of None \<Rightarrow> ''undefined'' | Some e \<Rightarrow> e))
            \<and> \<not> isProcessing (fst (snd (processRequest failing_planner idle_mesh ''hi'')))"
    by blast
  then have a: "fst (processRequest failing_planner idle_mesh ''hi'') = Thrown ''Planning failed: model offline''"
    and b: "\<not> isProcessing (fst (snd (processRequest failing_planner idle_mesh ''hi'')))"
    by simp_all
  from C9_processing_flag [of "idle_mesh\<lparr> isProcessing := True \<rparr>" failing_planner "''hi''"] busy
  have c: "processRequest failing_planner (idle_mesh\<lparr> isProcessing := True \<rparr>) ''hi''
       = (Thrown ''Already processing a request'', idle_mesh\<lparr> isProcessing := True \<rparr>, [])"
    by blast
  from idle a b busy c show ?thesis by blast
qed

section \<open>The scheduler loop as the mesh runs it\<close>

lemma showNat_2: "showNat 2 = ''2''"
  by simp

lemma node_name_2: "node_name (Suc (Suc 0)) = ''node_2''"
  using showNat_2 by (simp add: node_name_def numeral_2_eq_2 del: showNat.simps)

lemma free_cycle_built: "buildDAG free_cycle_tasks = root_and_cycle"
  by (simp add: free_cycle_tasks_def root_and_cycle_def buildDAG_def mark_roots_def node_name_0
      node_name_1 node_name_2 update_node_def del: showNat.simps)

lemma hello_created: "createExecutionPlan (planner hello_env) ''say hello'' = Returned hello_plan"
  by (simp add: createExecutionPlan_def analyzAndPlan_def reflectOnPlan_def hello_env_def
      mesh_with_def replying_planner_def make_tasks_def ids_from_def hello_plan_def Let_def)

lemma cycle_created: "createExecutionPlan (planner cycle_env) ''A and B'' = Returned cycle_plan"
  by (simp add: createExecutionPlan_def analyzAndPlan_def reflectOnPlan_def cycle_env_def
      mesh_with_def replying_planner_def make_tasks_def ids_from_def cycle_plan_def Let_def)
     (simp add: cycle_tasks_def)

lemma free_cycle_created:
  "createExecutionPlan (planner free_cycle_env) ''research, A and B'' = Returned free_cycle_plan"
  by (simp add: createExecutionPlan_def analyzAndPlan_def reflectOnPlan_def free_cycle_env_def
      mesh_with_def replying_planner_def make_tasks_def ids_from_def free_cycle_plan_def Let_def)
     (simp add: free_cycle_tasks_def)

lemma received_plan_run:
  "executePlan_value n exec w (JSON_roundtrip plan)
   = \<lparr> exit = Threw forEach_error, run_results = [],
       run_dag = \<lparr> nodes = [], rootNodes = rootNodes (dag plan), leafNodes = leafNodes (dag plan) \<rparr>,
       run_log = [], run_world = w \<rparr>"
  by (simp add: executePlan_value_def JSON_roundtrip_def)

lemma in_memory_run: "executePlan_value n exec w (in_memory plan) = executePlan n exec w plan"
proof -
  have eq: "\<lparr> nodes = nodes (dag plan), rootNodes = rootNodes (dag plan), leafNodes = leafNodes (dag plan) \<rparr>
        = dag plan"
    by (cases "dag plan") simp
  show ?thesis by (simp add: executePlan_value_def in_memory_def executePlan_def eq)
qed

lemma received_plan_thrown:
  assumes "createExecutionPlan (planner env) userInput = Returned plan"
  shows "fst (run_request env st userInput) = Thrown forEach_error
       \<and> emitted (fst (snd (run_request env st userInput))) = emitted st @ [''plan_created'', ''error'']"
  using assms
  by (simp add: run_request_def request_body_def shaka_execute_def shaka_execute_plan_def
      execute_request_def received_plan_run Let_def track_turn_def)

lemma free_cycle_not_complete: "\<not> isDAGComplete root_and_cycle"
  by (simp add: root_and_cycle_def isDAGComplete_def)

lemma free_cycle_ready: "getReadyTasks root_and_cycle = ([''node_0''], root_and_cycle)"
  by (simp add: root_and_cycle_def getReadyTasks_def allDepsComplete_def dep_completed_def)

lemma free_cycle_no_task:
  "dispatch_batch (tasks free_cycle_plan) [''node_0'']
     \<lparr> bs_dag = root_and_cycle, bs_started = [], bs_log = [], bs_error = None \<rparr>
   = \<lparr> bs_dag = root_and_cycle, bs_started = [], bs_log = [], bs_error = None \<rparr>"
  by (simp add: root_and_cycle_def find_task_def) (simp add: free_cycle_plan_def)

lemma free_cycle_spins:
  "executePlan_fuel n exec (tasks free_cycle_plan) w root_and_cycle [] []
   = \<lparr> exit = OutOfFuel, run_results = [], run_dag = root_and_cycle, run_log = [], run_world = w \<rparr>"
proof (induction n)
  case 0
  show ?case by simp
next
  case (Suc n)
  show ?case
    by (simp add: free_cycle_not_complete free_cycle_ready free_cycle_no_task Suc.IH Let_def
        del: dispatch_batch.simps)
qed

text \<open>
  C1. The loop of \<^verbatim>\<open>executePlan\<close> is reached only through \<^verbatim>\<open>processRequest\<close>, which
  passes \<^verbatim>\<open>JSON.parse(planResult.output)\<close>, the plan of SHAKA after its way through
  JSON, in which \<^verbatim>\<open>dag.nodes\<close> is a plain object. For every plan that
  \<^verbatim>\<open>createExecutionPlan\<close> returns, the loop condition throws a \<^verbatim>\<open>TypeError\<close> before the
  first iteration: the loop leaves neither as complete nor through the empty ready set,
  no result is returned, and \<^verbatim>\<open>processRequest\<close> is rejected with that error after the
  events \<^verbatim>\<open>plan_created\<close> and \<^verbatim>\<open>error\<close>. On the plan as it is in memory the loop runs as
  \<open>executePlan\<close>; on the plan created for the request \<^verbatim>\<open>say hello\<close> it never ends, as
  the node has the empty \<^verbatim>\<open>taskId\<close> and no task is described by the node id, so the
  node stays ready and is never dispatched. When the graph satisfies the invariant of
  scheduling, every node has a task that the lookup finds and the satellites return, the
  loop ends as complete or through the empty ready set within one iteration more than
  there are nodes still to finish.
\<close>

theorem C1_received_plan_throws:
  "(\<not> isProcessing st \<and> createExecutionPlan (planner env) userInput = Returned plan \<longrightarrow>
      fst (processRequest env st userInput) = Thrown forEach_error
      \<and> emitted (fst (snd (processRequest env st userInput)))
          = emitted st @ [''plan_created'', ''error''])
   \<and> executePlan_value n exec w (JSON_roundtrip plan)
       = \<lparr> exit = Threw forEach_error, run_results = [],
           run_dag = \<lparr> nodes = [], rootNodes = rootNodes (dag plan), leafNodes = leafNodes (dag plan) \<rparr>,
           run_log = [], run_world = w \<rparr>
   \<and> executePlan_value n exec w (in_memory plan) = executePlan n exec w plan
   \<and> createExecutionPlan (planner hello_env) ''say hello'' = Returned hello_plan
   \<and> executePlan n exec w hello_plan
       = \<lparr> exit = OutOfFuel, run_results = [], run_dag = dag hello_plan, run_log = [], run_world = w \<rparr>
   \<and> (ready_inv (dag plan) \<and> tasks_found (tasks plan) (dag plan) \<and> exec_returns exec \<longrightarrow>
        exit (executePlan (Suc (open_count (dag plan))) exec w plan) = Complete
        \<or> exit (executePlan (Suc (open_count (dag plan))) exec w plan) = Deadlock)"
proof -
  have a: "fst (processRequest env st userInput) = Thrown forEach_error
      \<and> emitted (fst (snd (processRequest env st userInput)))
          = emitted st @ [''plan_created'', ''error'']"
    if "\<not> isProcessing st \<and> createExecutionPlan (planner env) userInput = Returned plan"
  proof -
    from that have eq: "processRequest env st userInput = run_request env st userInput"
      by (simp add: processRequest_def)
    from that have "createExecutionPlan (planner env) userInput = Returned plan" by simp
    from received_plan_thrown[OF this, of st] show ?thesis unfolding eq .
  qed
  have h: "executePlan n exec w hello_plan
       = \<lparr> exit = OutOfFuel, run_results = [], run_dag = dag hello_plan, run_log = [], run_world = w \<rparr>"
    unfolding executePlan_def by (rule hello_spins)
  have t: "exit (executePlan (Suc (open_count (dag plan))) exec w plan) = Complete
        \<or> exit (executePlan (Suc (open_count (dag plan))) exec w plan) = Deadlock"
    if "ready_inv (dag plan) \<and> tasks_found (tasks plan) (dag plan) \<and> exec_returns exec"
  proof -
    from that have p: "ready_inv (dag plan)" "tasks_found (tasks plan) (dag plan)" "exec_returns exec"
      by simp_all
    have l: "list_all dispatch_ok ([] :: (string \<times> TaskDAG) list)" by simp
    have o: "open_count (dag plan) < Suc (open_count (dag plan))" by simp
    from executePlan_fuel_terminates[OF p(1) l p(2) p(3) o, of w "[]"]
    show ?thesis unfolding executePlan_def .
  qed
  from a received_plan_run[of n exec w plan] in_memory_run[of n exec w plan] hello_created h t
  show ?thesis by blast
qed

lemma chain_open: "open_count (dag chain_plan) = 2"
  unfolding chain_dag by (simp add: open_count_def status_of_def is_open_def)

lemma chain_tasks_found: "tasks_found (tasks chain_plan) (dag chain_plan)"
  unfolding chain_dag by (simp add: tasks_found_def task_keys_def chain_plan_def)

theorem C1_received_plan_throws_witness:
  "\<not> isProcessing idle_mesh
   \<and> createExecutionPlan (planner hello_env) ''say hello'' = Returned hello_plan
   \<and> fst (processRequest hello_env idle_mesh ''say hello'') = Thrown forEach_error
   \<and> emitted (fst (snd (processRequest hello_env idle_mesh ''say hello''))) = [''plan_created'', ''error'']
   \<and> ready_inv (dag chain_plan) \<and> tasks_found (tasks chain_plan) (dag chain_plan)
   \<and> exec_returns always_ok
   \<and> exit (executePlan (Suc (open_count (dag chain_plan))) always_ok () chain_plan) = Complete"
proof -
  have idle: "\<not> isProcessing idle_mesh" and em: "emitted idle_mesh = []"
    by (simp_all add: idle_mesh_def)
  from C1_received_plan_throws [where st = idle_mesh and env = hello_env and userInput = "''say hello''"
      and plan = hello_plan and n = 0 and exec = always_ok and w = "()"] idle hello_created
  have a0: "fst (processRequest hello_env idle_mesh ''say hello'') = Thrown forEach_error
      \<and> emitted (fst (snd (processRequest hello_env idle_mesh ''say hello'')))
          = emitted idle_mesh @ [''plan_created'', ''error'']"
    by blast
  then have a: "fst (processRequest hello_env idle_mesh ''say hello'') = Thrown forEach_error"
    "emitted (fst (snd (processRequest hello_env idle_mesh ''say hello'')))
          = emitted idle_mesh @ [''plan_created'', ''error'']"
    by simp_all
  have r: "ready_inv (dag chain_plan)" by (simp add: chain_plan_def buildDAG_ready_inv)
  from C1_received_plan_throws [where st = idle_mesh and env = hello_env and userInput = "''say hello''"
      and plan = chain_plan and n = 0 and exec = always_ok and w = "()"]
    r chain_tasks_found always_ok_returns
  have "exit (executePlan (Suc (open_count (dag chain_plan))) always_ok () chain_plan) = Complete
        \<or> exit (executePlan (Suc (open_count (dag chain_plan))) always_ok () chain_plan) = Deadlock"
    by blast
  moreover have "exit (executePlan (Suc (open_count (dag chain_plan))) always_ok () chain_plan) = Complete"
    unfolding chain_open using chain_run by (simp add: numeral_2_eq_2)
  ultimately have c: "exit (executePlan (Suc (open_count (dag chain_plan))) always_ok () chain_plan) = Complete"
    by simp
  from idle hello_created a em r chain_tasks_found always_ok_returns c show ?thesis by simp
qed

text \<open>
  C5. For a graph in which every node is pending and waits for a dependency, as in the
  graph of two tasks that each depend on the other, \<^verbatim>\<open>getReadyTasks\<close> returns the empty
  list and changes nothing, \<^verbatim>\<open>isDAGComplete\<close> is false, and the loop of \<^verbatim>\<open>executePlan\<close>,
  run on the plan in memory, leaves through the empty ready set in its first iteration.
  For any graph that holds a dependency cycle beside other nodes, the nodes of the cycle
  are never returned as ready and never dispatched, and the loop never leaves as
  complete; it leaves through the empty ready set, within one iteration more than there
  are nodes still to finish, when every node has a task that the lookup finds and the
  satellites return. The mesh does not run the loop that way. \<^verbatim>\<open>processRequest\<close> passes
  the plan after its way through JSON: for the plan of two tasks that depend on each
  other the loop condition throws a \<^verbatim>\<open>TypeError\<close>, the loop does not leave through the
  empty ready set, and the request is rejected. And on the plan in memory that
  \<^verbatim>\<open>createExecutionPlan\<close> returns for a task without dependency beside two that depend
  on each other, the ready set is never empty and the loop never ends: the free node has
  no task that the lookup finds and stays ready.
\<close>

theorem C5_cycle_plan_throws:
  "(all_waiting (dag plan) \<and> nodes (dag plan) \<noteq> [] \<longrightarrow>
      getReadyTasks (dag plan) = ([], dag plan)
      \<and> \<not> isDAGComplete (dag plan)
      \<and> executePlan (Suc n) exec w plan
          = \<lparr> exit = Deadlock, run_results = [], run_dag = dag plan, run_log = [], run_world = w \<rparr>)
   \<and> (stuck_set (dag plan) C \<longrightarrow>
        \<not> isDAGComplete (dag plan)
        \<and> set (fst (getReadyTasks (dag plan))) \<inter> set C = {}
        \<and> exit (executePlan n exec w plan) \<noteq> Complete
        \<and> \<not> isDAGComplete (run_dag (executePlan n exec w plan))
        \<and> set (map fst (run_log (executePlan n exec w plan))) \<inter> set C = {})
   \<and> (stuck_set (dag plan) C \<and> ready_inv (dag plan) \<and> tasks_found (tasks plan) (dag plan)
        \<and> exec_returns exec \<longrightarrow>
        exit (executePlan (Suc (open_count (dag plan))) exec w plan) = Deadlock)
   \<and> buildDAG cycle_tasks = cycle_dag \<and> all_waiting cycle_dag
   \<and> stuck_set cycle_dag [''node_0'', ''node_1'']
   \<and> createExecutionPlan (planner cycle_env) ''A and B'' = Returned cycle_plan
   \<and> fst (processRequest cycle_env idle_mesh ''A and B'') = Thrown forEach_error
   \<and> exit (executePlan_value n exec w (JSON_roundtrip cycle_plan)) = Threw forEach_error
   \<and> createExecutionPlan (planner free_cycle_env) ''research, A and B'' = Returned free_cycle_plan
   \<and> stuck_set (dag free_cycle_plan) [''node_1'', ''node_2'']
   \<and> fst (getReadyTasks (dag free_cycle_plan)) = [''node_0'']
   \<and> executePlan n exec w free_cycle_plan
       = \<lparr> exit = OutOfFuel, run_results = [], run_dag = dag free_cycle_plan, run_log = [],
           run_world = w \<rparr>"
proof -
  have a: "getReadyTasks (dag plan) = ([], dag plan)
      \<and> \<not> isDAGComplete (dag plan)
      \<and> executePlan (Suc n) exec w plan
          = \<lparr> exit = Deadlock, run_results = [], run_dag = dag plan, run_log = [], run_world = w \<rparr>"
    if "all_waiting (dag plan) \<and> nodes (dag plan) \<noteq> []"
  proof -
    from that have b: "all_blocked (dag plan)" and ne: "nodes (dag plan) \<noteq> []"
      by (simp_all add: waiting_blocked)
    from getReadyTasks_blocked[OF b] blocked_not_complete[OF b ne]
      blocked_deadlock[OF b ne, of n exec "tasks plan" w "[]" "[]"]
    show ?thesis by (simp add: executePlan_def)
  qed
  have b: "\<not> isDAGComplete (dag plan)
        \<and> set (fst (getReadyTasks (dag plan))) \<inter> set C = {}
        \<and> exit (executePlan n exec w plan) \<noteq> Complete
        \<and> \<not> isDAGComplete (run_dag (executePlan n exec w plan))
        \<and> set (map fst (run_log (executePlan n exec w plan))) \<inter> set C = {}"
    if st: "stuck_set (dag plan) C"
  proof -
    have e: "set [] \<inter> set C = {}" by simp
    from getReadyTasks_loop_stuck[OF st e, of "map fst (nodes (dag plan))"
        "fst (getReadyTasks (dag plan))" "snd (getReadyTasks (dag plan))"]
    have r: "set (fst (getReadyTasks (dag plan))) \<inter> set C = {}"
      by (simp add: getReadyTasks_def)
    have "set (map fst ([] :: (string \<times> TaskDAG) list)) \<inter> set C = {}" by simp
    from executePlan_fuel_stuck[OF st this, of n exec "tasks plan" w "[]"]
    have run: "stuck_set (run_dag (executePlan n exec w plan)) C"
      "exit (executePlan n exec w plan) \<noteq> Complete"
      "set (map fst (run_log (executePlan n exec w plan))) \<inter> set C = {}"
      by (simp_all add: executePlan_def)
    from stuck_not_complete[OF st] stuck_not_complete[OF run(1)] r run(2,3)
    show ?thesis by simp
  qed
  have t: "exit (executePlan (Suc (open_count (dag plan))) exec w plan) = Deadlock"
    if "stuck_set (dag plan) C \<and> ready_inv (dag plan) \<and> tasks_found (tasks plan) (dag plan)
        \<and> exec_returns exec"
  proof -
    from that have p: "stuck_set (dag plan) C" "ready_inv (dag plan)"
      "tasks_found (tasks plan) (dag plan)" "exec_returns exec" by simp_all
    have l: "list_all dispatch_ok ([] :: (string \<times> TaskDAG) list)" by simp
    have o: "open_count (dag plan) < Suc (open_count (dag plan))" by simp
    from executePlan_fuel_terminates[OF p(2) l p(3) p(4) o, of w "[]"]
    have "exit (executePlan (Suc (open_count (dag plan))) exec w plan) = Complete
        \<or> exit (executePlan (Suc (open_count (dag plan))) exec w plan) = Deadlock"
      unfolding executePlan_def .
    moreover have "set (map fst ([] :: (string \<times> TaskDAG) list)) \<inter> set C = {}" by simp
    from executePlan_fuel_stuck[OF p(1) this, of "Suc (open_count (dag plan))" exec "tasks plan" w "[]"]
    have "exit (executePlan (Suc (open_count (dag plan))) exec w plan) \<noteq> Complete"
      by (simp add: executePlan_def)
    ultimately show ?thesis by simp
  qed
  have c: "all_waiting cycle_dag" by (simp add: all_waiting_def cycle_dag_def)
  have d: "stuck_set cycle_dag [''node_0'', ''node_1'']"
    by (simp add: stuck_set_def cycle_dag_def)
  have idle: "\<not> isProcessing idle_mesh" by (simp add: idle_mesh_def)
  then have eq: "processRequest cycle_env idle_mesh ''A and B'' = run_request cycle_env idle_mesh ''A and B''"
    by (simp add: processRequest_def)
  from received_plan_thrown[OF cycle_created, of idle_mesh]
  have e: "fst (processRequest cycle_env idle_mesh ''A and B'') = Thrown forEach_error"
    unfolding eq by simp
  have f: "exit (executePlan_value n exec w (JSON_roundtrip cycle_plan)) = Threw forEach_error"
    by (simp add: received_plan_run)
  have fd: "dag free_cycle_plan = root_and_cycle" by (simp add: free_cycle_plan_def free_cycle_built)
  have g: "stuck_set (dag free_cycle_plan) [''node_1'', ''node_2'']"
    unfolding fd by (rule root_cycle_stuck)
  have h: "fst (getReadyTasks (dag free_cycle_plan)) = [''node_0'']"
    unfolding fd by (simp add: free_cycle_ready)
  have i: "executePlan n exec w free_cycle_plan
       = \<lparr> exit = OutOfFuel, run_results = [], run_dag = dag free_cycle_plan, run_log = [],
           run_world = w \<rparr>"
    unfolding executePlan_def fd by (rule free_cycle_spins)
  from a b t c d cycle_built cycle_created e f free_cycle_created g h i show ?thesis by blast
qed

theorem C5_cycle_plan_throws_witness:
  "all_waiting (dag cycle_plan) \<and> nodes (dag cycle_plan) \<noteq> []
   \<and> getReadyTasks (dag cycle_plan) = ([], cycle_dag)
   \<and> \<not> isDAGComplete (dag cycle_plan)
   \<and> exit (executePlan (Suc 0) always_ok () cycle_plan) = Deadlock
   \<and> run_results (executePlan (Suc 0) always_ok () cycle_plan) = []
   \<and> stuck_set (dag root_cycle_plan) [''node_1'', ''node_2'']
   \<and> ready_inv (dag root_cycle_plan)
   \<and> tasks_found (tasks root_cycle_plan) (dag root_cycle_plan)
   \<and> exec_returns always_ok
   \<and> open_count (dag root_cycle_plan) = 3
   \<and> exit (executePlan (Suc (open_count (dag root_cycle_plan))) always_ok () root_cycle_plan) = Deadlock
   \<and> exit (executePlan (Suc (Suc 0)) always_ok () root_cycle_plan) = Deadlock
   \<and> \<not> isDAGComplete (run_dag (executePlan (Suc (Suc 0)) always_ok () root_cycle_plan))
   \<and> map fst (run_log (executePlan (Suc (Suc 0)) always_ok () root_cycle_plan)) = [''node_0'']"
proof -
  have d: "dag cycle_plan = cycle_dag" by (simp add: cycle_plan_def cycle_built)
  have w: "all_waiting (dag cycle_plan)" unfolding d by (simp add: all_waiting_def cycle_dag_def)
  have n: "nodes (dag cycle_plan) \<noteq> []" unfolding d by (simp add: cycle_dag_def)
  from C5_cycle_plan_throws [where plan = cycle_plan and C = "[]" and n = 0 and exec = always_ok
      and w = "()"] w n
  have a: "getReadyTasks (dag cycle_plan) = ([], dag cycle_plan)"
    "\<not> isDAGComplete (dag cycle_plan)"
    "executePlan (Suc 0) always_ok () cycle_plan
          = \<lparr> exit = Deadlock, run_results = [], run_dag = dag cycle_plan, run_log = [], run_world = () \<rparr>"
    by blast+
  have rd: "dag root_cycle_plan = root_and_cycle" by (simp add: root_cycle_plan_def)
  have s: "stuck_set (dag root_cycle_plan) [''node_1'', ''node_2'']"
    unfolding rd by (rule root_cycle_stuck)
  have ri: "ready_inv (dag root_cycle_plan)" unfolding rd by (rule root_cycle_ready_inv)
  have oc: "open_count (dag root_cycle_plan) = 3" unfolding rd by (rule root_cycle_open)
  from C5_cycle_plan_throws [where plan = root_cycle_plan and C = "[''node_1'', ''node_2'']"
      and n = "Suc (Suc 0)" and exec = always_ok and w = "()"] s
  have b: "\<not> isDAGComplete (run_dag (executePlan (Suc (Suc 0)) always_ok () root_cycle_plan))"
    by blast
  from C5_cycle_plan_throws [where plan = root_cycle_plan and C = "[''node_1'', ''node_2'']"
      and n = 0 and exec = always_ok and w = "()"] s ri root_cycle_tasks_found always_ok_returns
  have t: "exit (executePlan (Suc (open_count (dag root_cycle_plan))) always_ok () root_cycle_plan) = Deadlock"
    by blast
  from a(3) have a3: "exit (executePlan (Suc 0) always_ok () cycle_plan) = Deadlock"
    "run_results (executePlan (Suc 0) always_ok () cycle_plan) = []" by simp_all
  from w n a(1,2) a3 s ri root_cycle_tasks_found always_ok_returns oc t b root_cycle_run d
  show ?thesis by simp
qed

end
